theory Spec2Isabelle
  imports Complex_Main "HOL-Library.Multiset"
begin

section \<open>Python values\<close>

text \<open>
  A Python \<^verbatim>\<open>str\<close> is a sequence of Unicode code points; a code point is a natural
  number here, so that the accented letters of the Portuguese keyword lists are single
  elements, as they are for Python. \<open>u\<close> turns an ASCII literal into such a string.
\<close>

type_synonym ustring = "nat list"

definition u :: "string \<Rightarrow> ustring" where
  "u s = map of_char s"

text \<open>The only exception that the functions modelled below can raise.\<close>

datatype py_error = ZeroDivisionError

text \<open>
  A Python number is an \<^verbatim>\<open>int\<close>, which is unbounded, or a \<^verbatim>\<open>float\<close>. A float is an
  exact rational here: rounding, infinities and NaN are not part of the model. The
  string that \<^verbatim>\<open>str\<close> gives for a float is the parameter \<open>float_str\<close> of the functions
  that print one.
\<close>

datatype number = PyInt int | PyFloat rat

fun py_mul :: "number \<Rightarrow> int \<Rightarrow> number" where
  "py_mul (PyInt a) k = PyInt (a * k)"
| "py_mul (PyFloat x) k = PyFloat (x * of_int k)"

text \<open>
  The division of line 29 is a float division. It raises \<^verbatim>\<open>ZeroDivisionError\<close> when the
  divisor is zero; otherwise it returns a float and never raises: the quotient of two
  finite floats is an infinity when its exact value is beyond the range of a double,
  \<open>2 ^ 1024 - 2 ^ 970\<close> being the least magnitude that rounds to infinity. Within the
  range the quotient is exact here. \<^verbatim>\<open>str\<close> prints the infinities as \<^verbatim>\<open>inf\<close> and
  \<^verbatim>\<open>-inf\<close>.
\<close>

datatype pyfloat = Finite rat | PosInf | NegInf

definition DBL_OVERFLOW :: rat where
  "DBL_OVERFLOW = 2 ^ 1024 - 2 ^ 970"

definition float_quotient :: "rat \<Rightarrow> rat \<Rightarrow> pyfloat" where
  "float_quotient x y =
     (if DBL_OVERFLOW \<le> x / y then PosInf
      else if x / y \<le> - DBL_OVERFLOW then NegInf
      else Finite (x / y))"

definition float_div :: "rat \<Rightarrow> rat \<Rightarrow> py_error + pyfloat" where
  "float_div x y = (if y = 0 then Inl ZeroDivisionError else Inr (float_quotient x y))"

definition str_float :: "(rat \<Rightarrow> ustring) \<Rightarrow> pyfloat \<Rightarrow> ustring" where
  "str_float float_str f =
     (case f of Finite q \<Rightarrow> float_str q | PosInf \<Rightarrow> u ''inf'' | NegInf \<Rightarrow> u ''-inf'')"

text \<open>
  \<^verbatim>\<open>str.isspace\<close> for one code point: the 29 code points of Unicode that Python
  treats as whitespace. \<^verbatim>\<open>str.split()\<close>, \<^verbatim>\<open>str.strip()\<close> and the
  regular expression class \<^verbatim>\<open>\s\<close> all use this set.
\<close>

definition isspace :: "nat \<Rightarrow> bool" where
  "isspace c \<longleftrightarrow>
     (0x09 \<le> c \<and> c \<le> 0x0D) \<or> (0x1C \<le> c \<and> c \<le> 0x20) \<or> c = 0x85 \<or> c = 0xA0 \<or>
     c = 0x1680 \<or> (0x2000 \<le> c \<and> c \<le> 0x200A) \<or> c = 0x2028 \<or> c = 0x2029 \<or>
     c = 0x202F \<or> c = 0x205F \<or> c = 0x3000"

text \<open>\<^verbatim>\<open>str.strip()\<close>: drop the whitespace at both ends.\<close>

definition strip :: "ustring \<Rightarrow> ustring" where
  "strip s = rev (dropWhile isspace (rev (dropWhile isspace s)))"

text \<open>
  \<^verbatim>\<open>str.split()\<close> without arguments: scan the string once, \<open>cur\<close> being the token
  read so far; a whitespace code point ends the token, and empty tokens are not emitted.
\<close>

fun split_scan :: "ustring \<Rightarrow> ustring \<Rightarrow> ustring list" where
  "split_scan cur [] = (if cur = [] then [] else [cur])"
| "split_scan cur (c # cs) =
     (if isspace c then (if cur = [] then split_scan [] cs else cur # split_scan [] cs)
      else split_scan (cur @ [c]) cs)"

definition split :: "ustring \<Rightarrow> ustring list" where
  "split s = split_scan [] s"

text \<open>
  \<^verbatim>\<open>str(n)\<close> for an integer: decimal digits, most significant first, with a minus sign
  for a negative number.
\<close>

fun str_nat :: "nat \<Rightarrow> ustring" where
  "str_nat n = (if n < 10 then [48 + n] else str_nat (n div 10) @ [48 + n mod 10])"

declare str_nat.simps [simp del]

definition str_int :: "int \<Rightarrow> ustring" where
  "str_int i = (if i < 0 then u ''-'' @ str_nat (nat (- i)) else str_nat (nat i))"

text \<open>
  The format specification \<^verbatim>\<open>02\<close> applied to an integer: minimum width 2, filled with
  zeros between the sign and the digits.
\<close>

definition format_02 :: "int \<Rightarrow> ustring" where
  "format_02 i =
     (if i < 0 then u ''-'' @ replicate (1 - length (str_nat (nat (- i)))) 48 @ str_nat (nat (- i))
      else replicate (2 - length (str_nat (nat i))) 48 @ str_nat (nat i))"

text \<open>
  The same format specification applied to a float pads the string of the float with
  zeros on the left up to the width 2. Python prints a float with three characters at
  least, so that the padding never shows.
\<close>

definition format_02_float :: "ustring \<Rightarrow> ustring" where
  "format_02_float s = replicate (2 - length s) 48 @ s"

section \<open>Timestamps\<close>

text \<open>
  \<^verbatim>\<open>format_timestamp\<close> (wise.py, lines 81-85). Its argument is an int or a float, and
  the three arithmetic statements keep the type. Python's \<^verbatim>\<open>//\<close> and \<^verbatim>\<open>%\<close> round
  towards minus infinity: on an int they are \<open>div\<close> and \<open>mod\<close>, on a float the
  quotient is the floor of the exact quotient and the remainder is what is left of it.
  The divisors are non-zero constants, so no statement of the function can raise.
\<close>

definition format_timestamp :: "(rat \<Rightarrow> ustring) \<Rightarrow> number \<Rightarrow> py_error + ustring" where
  "format_timestamp float_str milliseconds =
     (case milliseconds of
        PyInt ms \<Rightarrow>
          (let seconds = ms div 1000;
               minutes = seconds div 60;
               seconds = seconds mod 60
           in Inr (u ''('' @ str_int minutes @ u '':'' @ format_02 seconds @ u '')''))
      | PyFloat ms \<Rightarrow>
          (let seconds = rat_of_int \<lfloor>ms / 1000\<rfloor>;
               minutes = rat_of_int \<lfloor>seconds / 60\<rfloor>;
               seconds = seconds - 60 * rat_of_int \<lfloor>seconds / 60\<rfloor>
           in Inr (u ''('' @ float_str minutes @ u '':'' @ format_02_float (float_str seconds) @
                   u '')'')))"

section \<open>Lexical statistics\<close>

text \<open>The list \<^verbatim>\<open>MAGIC_WORDS\<close> (wise.py, lines 15-19).\<close>

definition MAGIC_WORDS :: "ustring list" where
  "MAGIC_WORDS =
     [u ''obrigado'', u ''obrigada'', u ''por favor'', u ''desculpa'', u ''desculpe'',
      u ''por gentileza'', u ''bom dia'', u ''boa tarde'', u ''boa noite'',
      u ''agrade'' @ [0xE7] @ u ''o'', u ''agradece'', u ''gratid'' @ [0xE3] @ u ''o'',
      u ''sinto muito'', u ''perd'' @ [0xE3] @ u ''o'', u ''me perdoe'',
      u ''com licen'' @ [0xE7] @ u ''a'']"

text \<open>
  \<^verbatim>\<open>collections.Counter\<close>. A Python dict keeps its keys in the order of their first
  insertion, so the counter is an association list in that order: counting an element
  increments its entry where it stands, or appends a new entry with count 1.
  Reading a missing key gives 0 and does not insert it.
\<close>

fun count_elem :: "('k \<times> nat) list \<Rightarrow> 'k \<Rightarrow> ('k \<times> nat) list" where
  "count_elem [] w = [(w, 1)]"
| "count_elem ((k, n) # kvs) w =
     (if k = w then (k, n + 1) # kvs else (k, n) # count_elem kvs w)"

definition Counter :: "'k list \<Rightarrow> ('k \<times> nat) list" where
  "Counter elems = foldl count_elem [] elems"

definition counter_get :: "('k \<times> nat) list \<Rightarrow> 'k \<Rightarrow> nat" where
  "counter_get c w = (case map_of c w of None \<Rightarrow> 0 | Some n \<Rightarrow> n)"

text \<open>
  \<^verbatim>\<open>Counter.most_common()\<close> is \<^verbatim>\<open>sorted(self.items(), key=itemgetter(1), reverse=True)\<close>.
  Python's sort is stable, and with \<^verbatim>\<open>reverse=True\<close> it reverses the list, sorts it
  in ascending order and reverses the result. \<open>sort_key\<close> is a stable insertion
  sort.
\<close>

definition most_common :: "('k \<times> nat) list \<Rightarrow> ('k \<times> nat) list" where
  "most_common c = rev (sort_key snd (rev c))"

text \<open>
  The dictionary returned by \<^verbatim>\<open>calcular_estatisticas\<close>. The two quotients are Python
  floats. The words per minute can be infinite, when the duration is tiny; the percentage
  is the quotient of a count by a count that is not smaller, times 100, and stays finite:
  it is an exact rational here. The rounding of floating-point division is not part of
  the model.
\<close>

record estatisticas =
  total_palavras :: nat
  palavras_por_minuto :: pyfloat
  palavras_ordenadas :: "(ustring \<times> nat) list"
  percentual_magicas :: rat

text \<open>
  \<^verbatim>\<open>calcular_estatisticas\<close> (wise.py, lines 26-40). \<^verbatim>\<open>str.lower\<close> depends on the Unicode
  case tables; it is the parameter \<open>lower\<close>. The duration is a finite float. The
  division of line 29 raises \<^verbatim>\<open>ZeroDivisionError\<close> when the duration is zero, before
  the counter is built; for any other duration it returns a float, which can be an
  infinity.
\<close>

definition calcular_estatisticas ::
  "(ustring \<Rightarrow> ustring) \<Rightarrow> ustring \<Rightarrow> rat \<Rightarrow> py_error + estatisticas" where
  "calcular_estatisticas lower texto duracao_minutos =
     (let palavras = split (lower texto);
          total = length palavras
      in case float_div (of_nat total) duracao_minutos of
           Inl e \<Rightarrow> Inl e
         | Inr por_minuto \<Rightarrow>
           let contagem_palavras = Counter palavras;
               ordenadas = most_common contagem_palavras;
               total_magicas = sum_list (map (counter_get contagem_palavras) MAGIC_WORDS);
               percentual =
                 (if total > 0 then (of_nat total_magicas / of_nat total) * 100 else 0)
           in Inr \<lparr>total_palavras = total,
                   palavras_por_minuto = por_minuto,
                   palavras_ordenadas = ordenadas,
                   percentual_magicas = percentual\<rparr>)"

section \<open>Sentiment\<close>

definition positive_words :: "ustring list" where
  "positive_words =
     [u ''bom'', [0xF3] @ u ''timo'', u ''excelente'', u ''satisfeito'', u ''maravilhoso'']"

definition negative_words :: "ustring list" where
  "negative_words =
     [u ''ruim'', u ''p'' @ [0xE9] @ u ''ssimo'', u ''horr'' @ [0xED] @ u ''vel'',
      u ''insatisfeito'', u ''terr'' @ [0xED] @ u ''vel'']"

text \<open>\<^verbatim>\<open>analisar_sentimento\<close> (wise.py, lines 42-55); it returns one of three strings.\<close>

definition analisar_sentimento :: "(ustring \<Rightarrow> ustring) \<Rightarrow> ustring \<Rightarrow> ustring" where
  "analisar_sentimento lower transcribed_text =
     (let positive_count =
            sum_list (map (\<lambda>word. 1::nat)
              (filter (\<lambda>word. word \<in> set positive_words) (split (lower transcribed_text))));
          negative_count =
            sum_list (map (\<lambda>word. 1::nat)
              (filter (\<lambda>word. word \<in> set negative_words) (split (lower transcribed_text))))
      in if positive_count > negative_count then u ''Satisfeito''
         else if negative_count > positive_count then u ''Insatisfeito''
         else u ''Neutro'')"

text \<open>
  \<^verbatim>\<open>str.lower\<close> on the code points below 256 (Basic Latin and Latin-1 Supplement), where
  it maps A-Z and the capital letters U+00C0 to U+00DE, except the multiplication sign
  U+00D7, to the code point 32 above. The concrete inputs below are evaluated with it.
\<close>

definition lower_latin1 :: "ustring \<Rightarrow> ustring" where
  "lower_latin1 s =
     map (\<lambda>c. if (0x41 \<le> c \<and> c \<le> 0x5A) \<or> (0xC0 \<le> c \<and> c \<le> 0xDE \<and> c \<noteq> 0xD7) then c + 32 else c) s"

section \<open>Segments and the assembled transcript\<close>

text \<open>
  One segment of the speech recogniser: the fields \<^verbatim>\<open>start\<close>, a number of seconds,
  and \<^verbatim>\<open>text\<close> of its dictionary.
\<close>

record segment =
  seg_start :: number
  seg_text :: ustring

text \<open>
  \<^verbatim>\<open>format_transcription\<close> (wise.py, lines 87-93): the loop appends one line and two
  newlines per segment to \<open>formatted_text\<close>; the result is stripped.
\<close>

fun format_transcription_loop ::
  "(rat \<Rightarrow> ustring) \<Rightarrow> ustring \<Rightarrow> segment list \<Rightarrow> py_error + ustring" where
  "format_transcription_loop float_str formatted_text [] = Inr formatted_text"
| "format_transcription_loop float_str formatted_text (seg # segs) =
     (case format_timestamp float_str (py_mul (seg_start seg) 1000) of
        Inl e \<Rightarrow> Inl e
      | Inr timestamp \<Rightarrow>
          let transcription = strip (seg_text seg)
          in format_transcription_loop float_str
               (formatted_text @ timestamp @ u '' '' @ transcription @ [0x0A, 0x0A]) segs)"

definition format_transcription :: "(rat \<Rightarrow> ustring) \<Rightarrow> segment list \<Rightarrow> py_error + ustring" where
  "format_transcription float_str transcribed_segments =
     (case format_transcription_loop float_str [] transcribed_segments of
        Inl e \<Rightarrow> Inl e
      | Inr formatted_text \<Rightarrow> Inr (strip formatted_text))"

section \<open>The report file\<close>

text \<open>
  \<^verbatim>\<open>sep.join(parts)\<close>.
\<close>

fun join :: "ustring \<Rightarrow> ustring list \<Rightarrow> ustring" where
  "join sep [] = []"
| "join sep [x] = x"
| "join sep (x # y # ys) = x @ sep @ join sep (y # ys)"

text \<open>
  \<^verbatim>\<open>csv.writer.writerow\<close> with the default dialect, the one \<^verbatim>\<open>csv.DictWriter\<close> uses in
  \<^verbatim>\<open>generate_csv\<close>: delimiter comma, quote character \<^verbatim>\<open>"\<close>, quotes doubled, minimal
  quoting, no escape character, line terminator CR LF. A field is quoted when it contains
  the delimiter, the quote character, CR or LF; a row made of one empty field is
  written as two quote characters. The file is opened with \<^verbatim>\<open>newline=''\<close>, so that what
  the writer emits is what the file holds.
\<close>

definition csv_special :: "nat \<Rightarrow> bool" where
  "csv_special c \<longleftrightarrow> c = 0x2C \<or> c = 0x22 \<or> c = 0x0D \<or> c = 0x0A"

fun csv_double :: "ustring \<Rightarrow> ustring" where
  "csv_double [] = []"
| "csv_double (c # cs) = (if c = 0x22 then 0x22 # 0x22 # csv_double cs else c # csv_double cs)"

definition csv_field :: "ustring \<Rightarrow> ustring" where
  "csv_field f = (if list_ex csv_special f then [0x22] @ csv_double f @ [0x22] else f)"

definition writerow :: "ustring list \<Rightarrow> ustring" where
  "writerow row =
     (if row = [[]] then [0x22, 0x22] else join [0x2C] (map csv_field row)) @ [0x0D, 0x0A]"

text \<open>
  \<^verbatim>\<open>generate_csv\<close> (wise.py, lines 61-79). The value is the content of the file. Every
  row that \<^verbatim>\<open>DictWriter.writerow\<close> passes on has the two fields \<^verbatim>\<open>timestamp\<close> and
  \<^verbatim>\<open>transcription\<close>, in this order; the empty dictionary of line 72 gives two empty
  fields. The writer applies \<^verbatim>\<open>str\<close> to a number; for a float that is the parameter
  \<open>float_str\<close>.
\<close>

fun generate_csv_loop ::
  "(rat \<Rightarrow> ustring) \<Rightarrow> ustring \<Rightarrow> segment list \<Rightarrow> py_error + ustring" where
  "generate_csv_loop float_str csvfile [] = Inr csvfile"
| "generate_csv_loop float_str csvfile (seg # segs) =
     (case format_timestamp float_str (py_mul (seg_start seg) 1000) of
        Inl e \<Rightarrow> Inl e
      | Inr timestamp \<Rightarrow>
          let transcription = strip (seg_text seg)
          in generate_csv_loop float_str (csvfile @ writerow [timestamp, transcription]) segs)"

definition generate_csv ::
  "(rat \<Rightarrow> ustring) \<Rightarrow> segment list \<Rightarrow> estatisticas \<Rightarrow> py_error + ustring" where
  "generate_csv float_str transcribed_segments est =
     (case generate_csv_loop float_str (writerow [u ''timestamp'', u ''transcription''])
             transcribed_segments of
        Inl e \<Rightarrow> Inl e
      | Inr csvfile \<Rightarrow>
          Inr (csvfile @
               writerow [[], []] @
               writerow [u ''Estat'' @ [0xED] @ u ''sticas'', []] @
               writerow [u ''Total de palavras'', str_int (int (total_palavras est))] @
               writerow [u ''Palavras por minuto'',
                         str_float float_str (palavras_por_minuto est)] @
               writerow [u ''Percentual de palavras m'' @ [0xE1] @ u ''gicas'',
                         float_str (percentual_magicas est)] @
               concat (map (\<lambda>(palavra, quantidade). writerow [palavra, str_int (int quantidade)])
                         (palavras_ordenadas est))))"

section \<open>The request handler\<close>

text \<open>
  The part of \<^verbatim>\<open>upload_audio\<close> (wise.py, lines 115-127) that follows the two external
  calls: \<open>transcribed_segments\<close> is what the speech recogniser returned and
  \<open>audio_len\<close> the length of the audio in milliseconds.
\<close>

record resultado =
  formatted_transcription :: ustring
  estatisticas :: estatisticas
  sentimento :: ustring
  csv_content :: ustring

definition upload_audio ::
  "(ustring \<Rightarrow> ustring) \<Rightarrow> (rat \<Rightarrow> ustring) \<Rightarrow> segment list \<Rightarrow> nat \<Rightarrow> py_error + resultado"
  where
  "upload_audio lower float_str transcribed_segments audio_len =
     (case format_transcription float_str transcribed_segments of
        Inl e \<Rightarrow> Inl e
      | Inr formatted \<Rightarrow>
          let duracao_minutos = of_nat audio_len / (1000 * 60)
          in case calcular_estatisticas lower formatted duracao_minutos of
               Inl e \<Rightarrow> Inl e
             | Inr est \<Rightarrow>
                 let sent = analisar_sentimento lower formatted
                 in case generate_csv float_str transcribed_segments est of
                      Inl e \<Rightarrow> Inl e
                    | Inr csv \<Rightarrow>
                        Inr \<lparr>formatted_transcription = formatted,
                             estatisticas = est,
                             sentimento = sent,
                             csv_content = csv\<rparr>)"

section \<open>Reading the report back\<close>

text \<open>
  Python's \<^verbatim>\<open>csv.reader\<close> with the same dialect, over a file opened with
  \<^verbatim>\<open>newline=''\<close>. Iterating over such a file gives its lines with their terminators: a
  line ends after LF, after CR LF, or after a CR that no LF follows.
\<close>

fun readlines :: "ustring \<Rightarrow> ustring \<Rightarrow> ustring list" where
  "readlines cur [] = (if cur = [] then [] else [cur])"
| "readlines cur [c] = [cur @ [c]]"
| "readlines cur (c # d # cs) =
     (if c = 0x0A then (cur @ [c]) # readlines [] (d # cs)
      else if c = 0x0D then
        (if d = 0x0A then (cur @ [c, d]) # readlines [] cs
         else (cur @ [c]) # readlines [] (d # cs))
      else readlines (cur @ [c]) (d # cs))"

text \<open>
  The state of the reader while it parses one record, and the step of its state machine
  on one character (\<^verbatim>\<open>parse_process_char\<close> of the C module); \<open>None\<close> is the
  end-of-line mark that the reader feeds after the characters of each line. The only
  error of the non-strict dialect is a character other than CR or LF after a record has
  ended. The limit on the size of a field is not modelled.
\<close>

datatype parse_state =
  START_RECORD | START_FIELD | IN_FIELD | IN_QUOTED_FIELD | QUOTE_IN_QUOTED_FIELD | EAT_CRNL

record reader =
  rd_state :: parse_state
  rd_field :: ustring
  rd_fields :: "ustring list"

datatype csv_error = NewlineInUnquotedField

definition parse_reset :: reader where
  "parse_reset = \<lparr>rd_state = START_RECORD, rd_field = [], rd_fields = []\<rparr>"

definition parse_save_field :: "reader \<Rightarrow> reader" where
  "parse_save_field r = r\<lparr>rd_fields := rd_fields r @ [rd_field r], rd_field := []\<rparr>"

definition parse_add_char :: "reader \<Rightarrow> nat \<Rightarrow> reader" where
  "parse_add_char r c = r\<lparr>rd_field := rd_field r @ [c]\<rparr>"

definition start_field :: "reader \<Rightarrow> nat option \<Rightarrow> reader" where
  "start_field r oc =
     (case oc of
        None \<Rightarrow> (parse_save_field r)\<lparr>rd_state := START_RECORD\<rparr>
      | Some c \<Rightarrow>
          if c = 0x0A \<or> c = 0x0D then (parse_save_field r)\<lparr>rd_state := EAT_CRNL\<rparr>
          else if c = 0x22 then r\<lparr>rd_state := IN_QUOTED_FIELD\<rparr>
          else if c = 0x2C then parse_save_field r
          else (parse_add_char r c)\<lparr>rd_state := IN_FIELD\<rparr>)"

definition parse_process_char :: "reader \<Rightarrow> nat option \<Rightarrow> csv_error + reader" where
  "parse_process_char r oc =
     (case rd_state r of
        START_RECORD \<Rightarrow>
          (case oc of
             None \<Rightarrow> Inr r
           | Some c \<Rightarrow>
               if c = 0x0A \<or> c = 0x0D then Inr (r\<lparr>rd_state := EAT_CRNL\<rparr>)
               else Inr (start_field (r\<lparr>rd_state := START_FIELD\<rparr>) oc))
      | START_FIELD \<Rightarrow> Inr (start_field r oc)
      | IN_FIELD \<Rightarrow>
          (case oc of
             None \<Rightarrow> Inr ((parse_save_field r)\<lparr>rd_state := START_RECORD\<rparr>)
           | Some c \<Rightarrow>
               if c = 0x0A \<or> c = 0x0D then Inr ((parse_save_field r)\<lparr>rd_state := EAT_CRNL\<rparr>)
               else if c = 0x2C then Inr ((parse_save_field r)\<lparr>rd_state := START_FIELD\<rparr>)
               else Inr (parse_add_char r c))
      | IN_QUOTED_FIELD \<Rightarrow>
          (case oc of
             None \<Rightarrow> Inr r
           | Some c \<Rightarrow>
               if c = 0x22 then Inr (r\<lparr>rd_state := QUOTE_IN_QUOTED_FIELD\<rparr>)
               else Inr (parse_add_char r c))
      | QUOTE_IN_QUOTED_FIELD \<Rightarrow>
          (case oc of
             None \<Rightarrow> Inr ((parse_save_field r)\<lparr>rd_state := START_RECORD\<rparr>)
           | Some c \<Rightarrow>
               if c = 0x22 then Inr ((parse_add_char r c)\<lparr>rd_state := IN_QUOTED_FIELD\<rparr>)
               else if c = 0x2C then Inr ((parse_save_field r)\<lparr>rd_state := START_FIELD\<rparr>)
               else if c = 0x0A \<or> c = 0x0D then
                 Inr ((parse_save_field r)\<lparr>rd_state := EAT_CRNL\<rparr>)
               else Inr ((parse_add_char r c)\<lparr>rd_state := IN_FIELD\<rparr>))
      | EAT_CRNL \<Rightarrow>
          (case oc of
             None \<Rightarrow> Inr (r\<lparr>rd_state := START_RECORD\<rparr>)
           | Some c \<Rightarrow>
               if c = 0x0A \<or> c = 0x0D then Inr r else Inl NewlineInUnquotedField))"

text \<open>The characters of one line, in order.\<close>

fun parse_line :: "reader \<Rightarrow> ustring \<Rightarrow> csv_error + reader" where
  "parse_line r [] = Inr r"
| "parse_line r (c # cs) =
     (case parse_process_char r (Some c) of
        Inl e \<Rightarrow> Inl e
      | Inr r' \<Rightarrow> parse_line r' cs)"

text \<open>
  The iteration of the reader over the lines. A record is complete when the state after
  the end-of-line mark is \<^verbatim>\<open>START_RECORD\<close>; its fields are the next row, and the
  reader is reset. When the lines run out inside a record, what has been read is the last
  row.
\<close>

fun reader_rows :: "reader \<Rightarrow> ustring list \<Rightarrow> csv_error + ustring list list" where
  "reader_rows r [] =
     (if rd_field r \<noteq> [] \<or> rd_state r = IN_QUOTED_FIELD
      then Inr [rd_fields (parse_save_field r)] else Inr [])"
| "reader_rows r (line # lines) =
     (case parse_line r line of
        Inl e \<Rightarrow> Inl e
      | Inr r1 \<Rightarrow>
          (case parse_process_char r1 None of
             Inl e \<Rightarrow> Inl e
           | Inr r2 \<Rightarrow>
               if rd_state r2 = START_RECORD
               then (case reader_rows parse_reset lines of
                       Inl e \<Rightarrow> Inl e
                     | Inr rows \<Rightarrow> Inr (rd_fields r2 # rows))
               else reader_rows r2 lines))"

definition csv_reader :: "ustring \<Rightarrow> csv_error + ustring list list" where
  "csv_reader content = reader_rows parse_reset (readlines [] content)"

section \<open>Normalisation of a transcript\<close>

text \<open>
  \<^verbatim>\<open>re.sub(r'\s+', ' ', text)\<close>: every maximal run of whitespace becomes one space.
  \<open>inrun\<close> tells that the previous code point was whitespace.
\<close>

fun sub_ws :: "bool \<Rightarrow> ustring \<Rightarrow> ustring" where
  "sub_ws inrun [] = []"
| "sub_ws inrun (c # cs) =
     (if isspace c then (if inrun then sub_ws True cs else 0x20 # sub_ws True cs)
      else c # sub_ws False cs)"

text \<open>
  The class \<^verbatim>\<open>\w\<close> of a Unicode pattern: the code points for which \<^verbatim>\<open>str.isalnum\<close>
  holds, and the underscore. \<^verbatim>\<open>str.isalnum\<close> depends on the Unicode character
  database; it is the parameter \<open>alnum\<close>.
\<close>

definition word_char :: "(nat \<Rightarrow> bool) \<Rightarrow> nat \<Rightarrow> bool" where
  "word_char alnum c \<longleftrightarrow> alnum c \<or> c = 0x5F"

text \<open>
  \<^verbatim>\<open>\b\<close> at a position: the code point before it and the code point after it differ
  in being word characters, the two ends of the string counting as non-word.
  \<open>prev\<close> tells whether the code point before is a word character.
\<close>

definition boundary :: "(nat \<Rightarrow> bool) \<Rightarrow> bool \<Rightarrow> ustring \<Rightarrow> bool" where
  "boundary alnum prev rest \<longleftrightarrow>
     prev \<noteq> (case rest of [] \<Rightarrow> False | c # _ \<Rightarrow> word_char alnum c)"

text \<open>
  A literal of the pattern at the head of the text, ignoring case. For each letter of
  the two words of the pattern the code points that match it are the letter itself and
  its capital, 32 below.
\<close>

fun literal_ci :: "ustring \<Rightarrow> ustring \<Rightarrow> bool" where
  "literal_ci [] s = True"
| "literal_ci (p # ps) [] = False"
| "literal_ci (p # ps) (c # cs) = ((c = p \<or> c + 32 = p) \<and> literal_ci ps cs)"

text \<open>
  \<^verbatim>\<open>\b\<close> after the first \<open>n\<close> code points of \<open>rest\<close>, for a positive \<open>n\<close>; there
  is none when \<open>rest\<close> is shorter.
\<close>

definition boundary_after :: "(nat \<Rightarrow> bool) \<Rightarrow> nat \<Rightarrow> ustring \<Rightarrow> bool" where
  "boundary_after alnum n rest =
     (case drop (n - 1) rest of
        [] \<Rightarrow> False
      | c # cont \<Rightarrow> boundary alnum (word_char alnum c) cont)"

text \<open>
  The pattern of line 23, a word boundary, one of the two connectors \<^verbatim>\<open>e\<close> and
  \<^verbatim>\<open>ent\<close>[U+00E3]\<^verbatim>\<open>o\<close>, and a word boundary, at the head of \<open>rest\<close>: the length of
  the match, if any. The first alternative is tried first.
\<close>

definition match_connector :: "(nat \<Rightarrow> bool) \<Rightarrow> bool \<Rightarrow> ustring \<Rightarrow> nat option" where
  "match_connector alnum prev rest =
     (if boundary alnum prev rest then
        if literal_ci (u ''e'') rest \<and> boundary_after alnum 1 rest then Some 1
        else if literal_ci (u ''ent'' @ [0xE3] @ u ''o'') rest \<and> boundary_after alnum 5 rest
        then Some 5
        else None
      else None)"

text \<open>
  \<^verbatim>\<open>re.sub\<close> with the replacement \<^verbatim>\<open>, \1\<close>: scan from the left; at a match, emit a comma,
  a space and the matched text, and go on after the match. \<open>k\<close> counts the code
  points of the current match that are still to be copied.
\<close>

fun sub_connector :: "(nat \<Rightarrow> bool) \<Rightarrow> bool \<Rightarrow> nat \<Rightarrow> ustring \<Rightarrow> ustring" where
  "sub_connector alnum prev k [] = []"
| "sub_connector alnum prev k (c # cs) =
     (if k > 0 then c # sub_connector alnum (word_char alnum c) (k - 1) cs
      else
        (case match_connector alnum prev (c # cs) of
           Some n \<Rightarrow> [0x2C, 0x20] @ c # sub_connector alnum (word_char alnum c) (n - 1) cs
         | None \<Rightarrow> c # sub_connector alnum (word_char alnum c) 0 cs))"

text \<open>\<^verbatim>\<open>clean_transcription\<close> (wise.py, lines 21-24).\<close>

definition clean_transcription :: "(nat \<Rightarrow> bool) \<Rightarrow> ustring \<Rightarrow> ustring" where
  "clean_transcription alnum text0 =
     (let text1 = sub_ws False text0;
          text2 = sub_connector alnum False 0 text1
      in strip text2)"

text \<open>
  \<^verbatim>\<open>str.isalnum\<close> on the code points below 256: the digits, the letters of Basic Latin,
  and in Latin-1 the ordinal indicators, the superscript digits, the micro sign, the
  vulgar fractions and the letters from U+00C0 on, without the multiplication and
  division signs. The concrete inputs below are evaluated with it.
\<close>

definition alnum_latin1 :: "nat \<Rightarrow> bool" where
  "alnum_latin1 c \<longleftrightarrow>
     (0x30 \<le> c \<and> c \<le> 0x39) \<or> (0x41 \<le> c \<and> c \<le> 0x5A) \<or> (0x61 \<le> c \<and> c \<le> 0x7A) \<or>
     c = 0xAA \<or> c = 0xB2 \<or> c = 0xB3 \<or> c = 0xB5 \<or> c = 0xB9 \<or> c = 0xBA \<or>
     c = 0xBC \<or> c = 0xBD \<or> c = 0xBE \<or>
     (0xC0 \<le> c \<and> c \<le> 0xFF \<and> c \<noteq> 0xD7 \<and> c \<noteq> 0xF7)"

section \<open>Notions used to state the properties\<close>

text \<open>
  The position of the first occurrence of \<open>x\<close> in a list, counted from 0; the length
  of the list when \<open>x\<close> does not occur.
\<close>

fun first_occurrence :: "'a list \<Rightarrow> 'a \<Rightarrow> nat" where
  "first_occurrence [] x = 0"
| "first_occurrence (y # ys) x = (if y = x then 0 else Suc (first_occurrence ys x))"

text \<open>
  The string that \<^verbatim>\<open>format_timestamp\<close> returns for an offset, and the pair of timestamp
  and stripped text that \<^verbatim>\<open>format_transcription\<close> and \<^verbatim>\<open>generate_csv\<close> both compute
  for a segment.
\<close>

definition stamp :: "(rat \<Rightarrow> ustring) \<Rightarrow> number \<Rightarrow> ustring" where
  "stamp float_str n = (case format_timestamp float_str n of Inl e \<Rightarrow> [] | Inr s \<Rightarrow> s)"

definition pair_of :: "(rat \<Rightarrow> ustring) \<Rightarrow> segment \<Rightarrow> ustring \<times> ustring" where
  "pair_of float_str seg =
     (stamp float_str (py_mul (seg_start seg) 1000), strip (seg_text seg))"

text \<open>The rows of the report, as lists of fields, in the order of their writing.\<close>

definition report_rows ::
  "(rat \<Rightarrow> ustring) \<Rightarrow> segment list \<Rightarrow> estatisticas \<Rightarrow> ustring list list" where
  "report_rows float_str segs est =
     [u ''timestamp'', u ''transcription''] #
     map (\<lambda>seg. [fst (pair_of float_str seg), snd (pair_of float_str seg)]) segs @
     [[[], []],
      [u ''Estat'' @ [0xED] @ u ''sticas'', []],
      [u ''Total de palavras'', str_int (int (total_palavras est))],
      [u ''Palavras por minuto'', str_float float_str (palavras_por_minuto est)],
      [u ''Percentual de palavras m'' @ [0xE1] @ u ''gicas'', float_str (percentual_magicas est)]] @
     map (\<lambda>(palavra, quantidade). [palavra, str_int (int quantidade)]) (palavras_ordenadas est)"

text \<open>
  A reader at the start of a field with nothing read of it, and the result of a reader
  that yields one row and then those of the rest of the input.
\<close>

definition fresh :: "reader \<Rightarrow> bool" where
  "fresh r \<longleftrightarrow> rd_field r = [] \<and> (rd_state r = START_RECORD \<or> rd_state r = START_FIELD)"

definition emit :: "ustring list \<Rightarrow> csv_error + ustring list list \<Rightarrow> csv_error + ustring list list" where
  "emit row res = (case res of Inl e \<Rightarrow> Inl e | Inr rows \<Rightarrow> Inr (row # rows))"

text \<open>
  A string in which whitespace occurs only as single spaces; \<open>inrun\<close> tells that a
  space stands just before the string.
\<close>

fun collapsed :: "bool \<Rightarrow> ustring \<Rightarrow> bool" where
  "collapsed inrun [] = True"
| "collapsed inrun (c # cs) =
     (if isspace c then \<not> inrun \<and> c = 0x20 \<and> collapsed True cs else collapsed False cs)"

section \<open>Properties of the timestamp formatter\<close>

lemma str_nat_small: "n < 10 \<Longrightarrow> str_nat n = [48 + n]"
  by (subst str_nat.simps) simp

lemma str_nat_two: "10 \<le> n \<Longrightarrow> n < 100 \<Longrightarrow> str_nat n = [48 + n div 10, 48 + n mod 10]"
  by (subst str_nat.simps) (simp add: str_nat_small)

lemma format_02_seconds:
  assumes "0 \<le> s" "s < 60"
  shows "format_02 s = [48 + nat s div 10, 48 + nat s mod 10]"
proof (cases "nat s < 10")
  case True
  with assms show ?thesis
    by (simp add: format_02_def str_nat_small)
next
  case False
  with assms have "10 \<le> nat s" "nat s < 100" by auto
  with assms show ?thesis
    by (simp add: format_02_def str_nat_two)
qed

lemma format_timestamp_int:
  "format_timestamp float_str (PyInt ms) =
     Inr (u ''('' @ str_int (ms div 60000) @ u '':'' @
          [48 + nat (ms div 1000 mod 60) div 10, 48 + nat (ms div 1000 mod 60) mod 10] @
          u '')'')"
proof -
  have secs: "format_02 (x mod 60) = [48 + nat (x mod 60) div 10, 48 + nat (x mod 60) mod 10]"
    for x :: int
    by (rule format_02_seconds) simp_all
  have mins: "ms div 1000 div 60 = ms div 60000"
    by (simp add: div_mult2_eq [symmetric])
  show ?thesis
    by (simp add: format_timestamp_def Let_def secs mins)
qed

lemma format_timestamp_general:
  assumes "0 \<le> ms"
  shows "format_timestamp float_str (PyInt ms) =
       Inr (u ''('' @ str_nat (nat (ms div 60000)) @ u '':'' @
            [48 + nat (ms div 1000 mod 60) div 10, 48 + nat (ms div 1000 mod 60) mod 10] @
            u '')'')"
proof -
  from assms have "0 \<le> ms div 60000"
    by (simp add: pos_imp_zdiv_nonneg_iff)
  then show ?thesis
    by (simp add: format_timestamp_int str_int_def)
qed

lemma format_timestamp_examples:
  "format_timestamp float_str (PyInt 0) = Inr (u ''(0:00)'')"
  "format_timestamp float_str (PyInt 61000) = Inr (u ''(1:01)'')"
  "format_timestamp float_str (PyInt 3600000) = Inr (u ''(60:00)'')"
  by (simp_all add: format_timestamp_int str_int_def str_nat_small str_nat_two u_def)

text \<open>
  On a float the two numbers are printed as floats: 12.5 seconds into the audio the
  timestamp is made of the strings of 0.0 and 12.0.
\<close>

lemma format_timestamp_float_example:
  "format_timestamp float_str (PyFloat 12500) =
     Inr (u ''('' @ float_str 0 @ u '':'' @ format_02_float (float_str 12) @ u '')'')"
  "format_timestamp float_str (PyFloat (- 1)) =
     Inr (u ''('' @ float_str (- 1) @ u '':'' @ format_02_float (float_str 59) @ u '')'')"
proof -
  have "\<lfloor>12500 / 1000 :: rat\<rfloor> = 12" "\<lfloor>12 / 60 :: rat\<rfloor> = 0"
    "\<lfloor>- 1 / 1000 :: rat\<rfloor> = - 1" "\<lfloor>- 1 / 60 :: rat\<rfloor> = - 1"
    by (simp_all add: floor_eq_iff)
  then show "format_timestamp float_str (PyFloat 12500) =
     Inr (u ''('' @ float_str 0 @ u '':'' @ format_02_float (float_str 12) @ u '')'')"
    "format_timestamp float_str (PyFloat (- 1)) =
     Inr (u ''('' @ float_str (- 1) @ u '':'' @ format_02_float (float_str 59) @ u '')'')"
    by (simp_all add: format_timestamp_def Let_def)
qed

lemma format_timestamp_stamp: "format_timestamp float_str n = Inr (stamp float_str n)"
  by (cases n) (simp_all add: stamp_def format_timestamp_def Let_def)

lemma stamp_not_empty: "stamp float_str n \<noteq> []"
  by (cases n) (simp_all add: stamp_def format_timestamp_def Let_def u_def)

text \<open>
  C5. For a non-negative integer offset the result is \<^verbatim>\<open>(M:SS)\<close>: \<open>M\<close> is the offset
  divided by 60000, rounded down and printed without padding, whatever its size; \<open>SS\<close> is
  the offset divided by 1000, rounded down, modulo 60, printed with exactly two digits.
  In particular 0 gives \<^verbatim>\<open>(0:00)\<close>, 61000 gives \<^verbatim>\<open>(1:01)\<close> and 3600000 gives \<^verbatim>\<open>(60:00)\<close>.
\<close>

theorem format_timestamp_nonneg:
  "(0 \<le> ms \<longrightarrow>
     format_timestamp float_str (PyInt ms) =
       Inr (u ''('' @ str_nat (nat (ms div 60000)) @ u '':'' @
            [48 + nat (ms div 1000 mod 60) div 10, 48 + nat (ms div 1000 mod 60) mod 10] @
            u '')'')) \<and>
   format_timestamp float_str (PyInt 0) = Inr (u ''(0:00)'') \<and>
   format_timestamp float_str (PyInt 61000) = Inr (u ''(1:01)'') \<and>
   format_timestamp float_str (PyInt 3600000) = Inr (u ''(60:00)'')"
  using format_timestamp_general [of ms float_str] format_timestamp_examples [of float_str]
  by blast

theorem format_timestamp_nonneg_witness:
  "(0::int) \<le> 125000 \<and> format_timestamp (\<lambda>q. []) (PyInt 125000) = Inr (u ''(2:05)'')"
  using format_timestamp_nonneg [of 125000 "\<lambda>q. []"]
  by (simp add: str_nat_small u_def)

text \<open>
  C4 as stated fails: no input makes the formatter fail. The offset -1 is formatted
  with floor division, giving \<^verbatim>\<open>(-1:59)\<close>.
\<close>

theorem format_timestamp_negative_counterexample:
  "format_timestamp (\<lambda>q. []) (PyInt (- 1)) = Inr (u ''(-1:59)'')"
  by (simp add: format_timestamp_int str_int_def str_nat_small u_def)

text \<open>
  C4, amended. The formatter never fails, on an int or on a float, negative or not. For
  every integer offset, negative ones included, it returns \<^verbatim>\<open>(M:SS)\<close>, with \<open>M\<close> the
  offset divided by 60000, rounded down (with a minus sign when negative), and \<open>SS\<close> the
  two digits of the offset divided by 1000, rounded down, modulo 60.
\<close>

theorem format_timestamp_never_fails:
  "format_timestamp float_str (PyInt ms) =
     Inr (u ''('' @ str_int (ms div 60000) @ u '':'' @
          [48 + nat (ms div 1000 mod 60) div 10, 48 + nat (ms div 1000 mod 60) mod 10] @
          u '')'') \<and>
   format_timestamp float_str n \<noteq> Inl e"
  using format_timestamp_int [of float_str ms] format_timestamp_stamp [of float_str n]
  by simp

section \<open>Properties of the statistics engine\<close>

subsection \<open>Tokens\<close>

lemma split_scan_tokens:
  "\<forall>c\<in>set cur. \<not> isspace c \<Longrightarrow> w \<in> set (split_scan cur cs) \<Longrightarrow> w \<noteq> [] \<and> (\<forall>c\<in>set w. \<not> isspace c)"
proof (induction cs arbitrary: cur)
  case Nil
  then show ?case by (simp split: if_splits)
next
  case (Cons c cs)
  show ?case
  proof (cases "isspace c")
    case True
    note sp = this
    show ?thesis
    proof (cases "cur = []")
      case True
      with sp Cons.prems have "w \<in> set (split_scan [] cs)" by simp
      then show ?thesis using Cons.IH [of "[]"] by simp
    next
      case False
      with sp Cons.prems have "w = cur \<or> w \<in> set (split_scan [] cs)" by simp
      then show ?thesis using Cons.IH [of "[]"] Cons.prems(1) False by auto
    qed
  next
    case False
    with Cons.prems have "w \<in> set (split_scan (cur @ [c]) cs)" by simp
    moreover from False Cons.prems(1) have "\<forall>d\<in>set (cur @ [c]). \<not> isspace d" by simp
    ultimately show ?thesis using Cons.IH [of "cur @ [c]"] by blast
  qed
qed

lemma split_tokens: "w \<in> set (split s) \<Longrightarrow> w \<noteq> [] \<and> (\<forall>c\<in>set w. \<not> isspace c)"
  unfolding split_def using split_scan_tokens [of "[]" w s] by simp

subsection \<open>The counter\<close>

lemma keys_count_elem:
  "map fst (count_elem acc x) = (if x \<in> set (map fst acc) then map fst acc else map fst acc @ [x])"
  by (induction acc x rule: count_elem.induct) auto

lemma counter_get_count_elem:
  "counter_get (count_elem acc x) k = counter_get acc k + (if k = x then 1 else 0)"
  by (induction acc x rule: count_elem.induct) (auto simp add: counter_get_def)

lemma sum_count_elem: "sum_list (map snd (count_elem acc x)) = Suc (sum_list (map snd acc))"
  by (induction acc x rule: count_elem.induct) auto

lemma Counter_snoc: "Counter (xs @ [x]) = count_elem (Counter xs) x"
  by (simp add: Counter_def)

lemma Counter_Nil: "Counter [] = []"
  by (simp add: Counter_def)

lemma keys_Counter: "set (map fst (Counter xs)) = set xs"
proof (induction xs rule: rev_induct)
  case Nil
  show ?case by (simp add: Counter_Nil)
next
  case (snoc x xs)
  then show ?case by (auto simp: Counter_snoc keys_count_elem)
qed

lemma distinct_Counter: "distinct (map fst (Counter xs))"
proof (induction xs rule: rev_induct)
  case Nil
  show ?case by (simp add: Counter_Nil)
next
  case (snoc x xs)
  then show ?case by (simp add: Counter_snoc keys_count_elem)
qed

lemma counter_get_Counter: "counter_get (Counter xs) k = count_list xs k"
proof (induction xs rule: rev_induct)
  case Nil
  show ?case by (simp add: Counter_Nil counter_get_def)
next
  case (snoc x xs)
  then show ?case by (simp add: Counter_snoc counter_get_count_elem)
qed

lemma sum_Counter: "sum_list (map snd (Counter xs)) = length xs"
proof (induction xs rule: rev_induct)
  case Nil
  show ?case by (simp add: Counter_Nil)
next
  case (snoc x xs)
  then show ?case by (simp add: Counter_snoc sum_count_elem)
qed

lemma first_occurrence_append:
  "first_occurrence (xs @ ys) w = (if w \<in> set xs then first_occurrence xs w else length xs + first_occurrence ys w)"
  by (induction xs) auto

lemma first_occurrence_less: "w \<in> set xs \<Longrightarrow> first_occurrence xs w < length xs"
  by (induction xs) auto

lemma Counter_order:
  "sorted_wrt (\<lambda>a b. first_occurrence xs a < first_occurrence xs b) (map fst (Counter xs))"
proof (induction xs rule: rev_induct)
  case Nil
  show ?case by (simp add: Counter_Nil)
next
  case (snoc x xs)
  have keys: "set (map fst (Counter xs)) = set xs"
    by (rule keys_Counter)
  have *: "sorted_wrt (\<lambda>a b. first_occurrence (xs @ [x]) a < first_occurrence (xs @ [x]) b) (map fst (Counter xs))"
    using snoc
  proof (rule sorted_wrt_mono_rel [rotated])
    fix a b
    assume "a \<in> set (map fst (Counter xs))" "b \<in> set (map fst (Counter xs))"
      "first_occurrence xs a < first_occurrence xs b"
    then show "first_occurrence (xs @ [x]) a < first_occurrence (xs @ [x]) b"
      unfolding keys by (simp add: first_occurrence_append)
  qed
  show ?case
  proof (cases "x \<in> set xs")
    case True
    with * keys show ?thesis
      by (simp add: Counter_snoc keys_count_elem del: set_map)
  next
    case False
    have "\<forall>a\<in>set (map fst (Counter xs)). first_occurrence (xs @ [x]) a < first_occurrence (xs @ [x]) x"
      unfolding keys using False by (simp add: first_occurrence_append first_occurrence_less)
    with * False keys show ?thesis
      by (simp add: Counter_snoc keys_count_elem sorted_wrt_append del: set_map)
  qed
qed


lemma entry_Counter:
  assumes "(k, v) \<in> set (Counter xs)"
  shows "v = count_list xs k"
proof -
  from assms have "map_of (Counter xs) k = Some v"
    using distinct_Counter [of xs] by simp
  then have "counter_get (Counter xs) k = v"
    by (simp add: counter_get_def)
  then show ?thesis
    by (simp add: counter_get_Counter)
qed

subsection \<open>The ordered sequence\<close>

lemma insort_lex:
  assumes "sorted_wrt (\<lambda>a b. key a < key b \<or> (key a = key b \<and> Q a b)) ys"
    and "\<forall>y\<in>set ys. Q x y"
  shows "sorted_wrt (\<lambda>a b. key a < key b \<or> (key a = key b \<and> Q a b)) (insort_key key x ys)"
  using assms
proof (induction ys)
  case Nil
  then show ?case by simp
next
  case (Cons y ys)
  show ?case
  proof (cases "key x \<le> key y")
    case True
    with Cons.prems show ?thesis by fastforce
  next
    case False
    with Cons show ?thesis by (auto simp: set_insort_key)
  qed
qed

lemma sort_key_lex:
  fixes key :: "'a \<Rightarrow> 'b::linorder"
  assumes "sorted_wrt Q xs"
  shows "sorted_wrt (\<lambda>a b. key a < key b \<or> (key a = key b \<and> Q a b)) (sort_key key xs)"
  using assms
proof (induction xs)
  case Nil
  then show ?case by simp
next
  case (Cons x xs)
  then show ?case by (simp add: insort_lex)
qed

lemma most_common_lex:
  assumes "sorted_wrt Q c"
  shows "sorted_wrt (\<lambda>a b. snd b < snd a \<or> (snd a = snd b \<and> Q a b)) (most_common c)"
proof -
  from assms have "sorted_wrt (\<lambda>a b. Q b a) (rev c)"
    by (simp add: sorted_wrt_rev)
  then have "sorted_wrt (\<lambda>a b. snd a < snd b \<or> (snd a = snd b \<and> Q b a)) (sort_key snd (rev c))"
    by (rule sort_key_lex)
  then show ?thesis
    unfolding most_common_def sorted_wrt_rev
    by (rule sorted_wrt_mono_rel [rotated]) auto
qed

lemma mset_most_common: "mset (most_common c) = mset c"
  by (simp add: most_common_def)

lemma set_most_common: "set (most_common c) = set c"
  by (simp add: most_common_def)

lemma sum_most_common: "sum_list (map snd (most_common c)) = sum_list (map snd c)"
proof -
  have "mset (map snd (most_common c)) = mset (map snd c)"
    by (simp add: mset_most_common)
  then show ?thesis
    by (metis sum_mset_sum_list)
qed

lemma distinct_most_common: "distinct (map fst (most_common c)) = distinct (map fst c)"
proof -
  have "mset (map fst (most_common c)) = mset (map fst c)"
    by (simp add: mset_most_common)
  then show ?thesis
    by (rule mset_eq_imp_distinct_iff)
qed

lemma filter_key_distinct:
  "distinct (map fst xs) \<Longrightarrow> (k, v) \<in> set xs \<Longrightarrow> filter (\<lambda>e. fst e = k) xs = [(k, v)]"
proof (induction xs)
  case Nil
  then show ?case by simp
next
  case (Cons x xs)
  show ?case
  proof (cases "x = (k, v)")
    case True
    with Cons.prems(1) have "filter (\<lambda>e. fst e = k) xs = []"
      by (auto simp: filter_empty_conv)
    with True show ?thesis by simp
  next
    case False
    with Cons.prems have "(k, v) \<in> set xs" "fst x \<noteq> k"
      by (auto simp: image_iff)
    with Cons show ?thesis by simp
  qed
qed

subsection \<open>The float division\<close>

lemma DBL_OVERFLOW_lower: "2 ^ 1023 \<le> DBL_OVERFLOW"
proof -
  have "(2::rat) ^ 970 \<le> 2 ^ 1023"
    by (rule power_increasing) simp_all
  moreover have "(2::rat) ^ 1024 = 2 ^ 1023 + 2 ^ 1023"
    by simp
  ultimately show ?thesis
    unfolding DBL_OVERFLOW_def by linarith
qed

lemma float_quotient_small:
  assumes "\<bar>x / y\<bar> < 2 ^ 1023"
  shows "float_quotient x y = Finite (x / y)"
proof -
  from assms have "x / y < 2 ^ 1023" "- (x / y) < 2 ^ 1023"
    by (simp_all only: abs_less_iff)
  with DBL_OVERFLOW_lower have "\<not> DBL_OVERFLOW \<le> x / y" "\<not> x / y \<le> - DBL_OVERFLOW"
    by linarith+
  then show ?thesis
    by (simp only: float_quotient_def if_False)
qed

lemma float_quotient_nonpos:
  assumes "0 \<le> x" "y < 0"
  shows "float_quotient x y = (if x / y \<le> - DBL_OVERFLOW then NegInf else Finite (x / y))"
proof -
  from assms have "x / y \<le> 0"
    by (simp add: divide_le_0_iff)
  moreover have "0 < DBL_OVERFLOW"
    using DBL_OVERFLOW_lower by (rule less_le_trans [rotated]) simp
  ultimately show ?thesis
    by (simp add: float_quotient_def)
qed

lemma float_quotient_tiny: "float_quotient 1 (- (1 / 2 ^ 1074)) = NegInf"
proof -
  have "(2::rat) ^ 1024 \<le> 2 ^ 1074"
    by (rule power_increasing) simp_all
  moreover have "(0::rat) \<le> 2 ^ 970"
    by simp
  ultimately have big: "DBL_OVERFLOW \<le> 2 ^ 1074"
    unfolding DBL_OVERFLOW_def by linarith
  have pos: "0 < DBL_OVERFLOW"
    using DBL_OVERFLOW_lower by (rule less_le_trans [rotated]) simp
  have q: "(1::rat) / (- (1 / 2 ^ 1074)) = - (2 ^ 1074)"
    by simp
  from big pos have "\<not> DBL_OVERFLOW \<le> - (2 ^ 1074)" "- (2 ^ 1074) \<le> - DBL_OVERFLOW"
    by linarith+
  then show ?thesis
    unfolding float_quotient_def q by (simp only: if_True if_False)
qed

subsection \<open>Concrete inputs\<close>

lemma ex_tokens:
  "split (lower_latin1 (u ''obrigado obrigado teste'')) = [u ''obrigado'', u ''obrigado'', u ''teste'']"
  by (simp add: split_def lower_latin1_def u_def isspace_def)

lemma ex_counter: "Counter [u ''obrigado'', u ''obrigado'', u ''teste''] = [(u ''obrigado'', 2), (u ''teste'', 1)]"
  by (simp add: Counter_def u_def)

lemma ex_common: "most_common [(u ''obrigado'', 2::nat), (u ''teste'', 1)] = [(u ''obrigado'', 2), (u ''teste'', 1)]"
  by (simp add: most_common_def)

lemma ex_magic: "sum_list (map (counter_get [(u ''obrigado'', 2), (u ''teste'', 1)]) MAGIC_WORDS) = 2"
  by (simp add: MAGIC_WORDS_def counter_get_def u_def)

lemma ex_stats:
  "calcular_estatisticas lower_latin1 (u ''obrigado obrigado teste'') 1 =
     Inr \<lparr>total_palavras = 3, palavras_por_minuto = Finite 3,
          palavras_ordenadas = [(u ''obrigado'', 2), (u ''teste'', 1)],
          percentual_magicas = (2 / 3) * 100\<rparr>"
proof -
  have "float_div (rat_of_nat (length [u ''obrigado'', u ''obrigado'', u ''teste''])) 1 =
      Inr (Finite 3)"
    by (simp add: float_div_def float_quotient_small)
  then show ?thesis
    unfolding calcular_estatisticas_def ex_tokens Let_def ex_counter ex_common ex_magic by simp
qed


lemma ex_sent_tokens:
  "split (lower_latin1 (u ''o atendimento foi '' @ [0xF3] @ u ''timo e excelente'')) =
     [u ''o'', u ''atendimento'', u ''foi'', [0xF3] @ u ''timo'', u ''e'', u ''excelente'']"
  "split (lower_latin1 (u ''o atendimento foi p'' @ [0xE9] @ u ''ssimo'')) =
     [u ''o'', u ''atendimento'', u ''foi'', u ''p'' @ [0xE9] @ u ''ssimo'']"
  "split (lower_latin1 (u ''o atendimento foi normal'')) =
     [u ''o'', u ''atendimento'', u ''foi'', u ''normal'']"
  by (simp_all add: split_def lower_latin1_def u_def isspace_def)

lemma ex_sent:
  "analisar_sentimento lower_latin1 (u ''o atendimento foi '' @ [0xF3] @ u ''timo e excelente'') = u ''Satisfeito''"
  "analisar_sentimento lower_latin1 (u ''o atendimento foi p'' @ [0xE9] @ u ''ssimo'') = u ''Insatisfeito''"
  "analisar_sentimento lower_latin1 (u ''o atendimento foi normal'') = u ''Neutro''"
  unfolding analisar_sentimento_def ex_sent_tokens
  by (simp_all add: positive_words_def negative_words_def u_def)

subsection \<open>Keyword counts\<close>

lemma length_filter_disj:
  "\<forall>x\<in>set xs. \<not> (P x \<and> Q x) \<Longrightarrow>
     length (filter (\<lambda>x. P x \<or> Q x) xs) = length (filter P xs) + length (filter Q xs)"
  by (induction xs) auto

lemma length_filter_member:
  "distinct ks \<Longrightarrow> length (filter (\<lambda>w. w \<in> set ks) xs) = sum_list (map (count_list xs) ks)"
proof (induction ks)
  case Nil
  then show ?case by simp
next
  case (Cons k ks)
  then have "\<forall>x\<in>set xs. \<not> (x = k \<and> x \<in> set ks)" by auto
  then have "length (filter (\<lambda>w. w = k \<or> w \<in> set ks) xs) =
      length (filter (\<lambda>w. w = k) xs) + length (filter (\<lambda>w. w \<in> set ks) xs)"
    by (rule length_filter_disj)
  moreover have "length (filter (\<lambda>w. w = k) xs) = count_list xs k"
    by (induction xs) auto
  ultimately show ?case using Cons by simp
qed

lemma sum_ones: "sum_list (map (\<lambda>x. 1::nat) xs) = length xs"
  by (induction xs) auto

lemma sum_counts_le: "distinct ks \<Longrightarrow> sum_list (map (count_list xs) ks) \<le> length xs"
  using length_filter_member [of ks xs] length_filter_le [of "\<lambda>w. w \<in> set ks" xs] by simp

lemma distinct_MAGIC_WORDS: "distinct MAGIC_WORDS"
  by (simp add: MAGIC_WORDS_def u_def)

lemma distinct_keywords: "distinct positive_words" "distinct negative_words"
  by (simp_all add: positive_words_def negative_words_def u_def)

lemma counter_get_most_common:
  "distinct (map fst c) \<Longrightarrow> counter_get (most_common c) w = counter_get c w"
proof -
  assume d: "distinct (map fst c)"
  then have "distinct (map fst (most_common c))"
    by (simp add: distinct_most_common)
  with d have "map_of (most_common c) = map_of c"
    by (simp add: map_of_inject_set set_most_common)
  then show ?thesis by (simp add: counter_get_def)
qed

lemma count_list_whitespace:
  assumes "\<exists>c\<in>set w. isspace c"
  shows "count_list (split s) w = 0"
proof -
  from assms have "w \<notin> set (split s)"
    using split_tokens [of w s] by blast
  then show ?thesis by (simp add: count_list_0_iff)
qed

subsection \<open>The value of the engine\<close>

lemma calcular_estatisticas_result:
  assumes "duracao \<noteq> 0"
  shows "calcular_estatisticas lower texto duracao =
     Inr \<lparr>total_palavras = length (split (lower texto)),
          palavras_por_minuto = float_quotient (of_nat (length (split (lower texto)))) duracao,
          palavras_ordenadas = most_common (Counter (split (lower texto))),
          percentual_magicas =
            (if length (split (lower texto)) > 0
             then (of_nat (sum_list (map (count_list (split (lower texto))) MAGIC_WORDS)) /
                     of_nat (length (split (lower texto)))) * 100
             else 0)\<rparr>"
proof -
  have "counter_get (Counter xs) = count_list xs" for xs :: "ustring list"
    by (rule ext) (rule counter_get_Counter)
  with assms show ?thesis
    by (simp add: calcular_estatisticas_def float_div_def Let_def)
qed

lemma table_lookup:
  "counter_get (most_common (Counter xs)) w = count_list xs w"
  by (simp add: counter_get_most_common distinct_Counter counter_get_Counter)

lemma table_entry:
  assumes "w \<in> set xs"
  shows "filter (\<lambda>e. fst e = w) (most_common (Counter xs)) = [(w, count_list xs w)]"
proof -
  from assms have "w \<in> set (map fst (Counter xs))"
    by (simp only: keys_Counter)
  then obtain n where n: "(w, n) \<in> set (Counter xs)" by auto
  then have "n = count_list xs w" by (rule entry_Counter)
  with n have "(w, count_list xs w) \<in> set (most_common (Counter xs))"
    by (simp add: set_most_common)
  moreover have "distinct (map fst (most_common (Counter xs)))"
    by (simp add: distinct_most_common distinct_Counter)
  ultimately show ?thesis by (rule filter_key_distinct [rotated])
qed

lemma table_order:
  "sorted_wrt (\<lambda>a b. snd b < snd a \<or>
       (snd a = snd b \<and> first_occurrence xs (fst a) < first_occurrence xs (fst b)))
     (most_common (Counter xs))"
proof -
  have "sorted_wrt (\<lambda>a b. first_occurrence xs (fst a) < first_occurrence xs (fst b)) (Counter xs)"
    using Counter_order [of xs] by (simp add: sorted_wrt_map)
  then show ?thesis by (rule most_common_lex)
qed

text \<open>
  C1. For a positive duration the engine returns statistics in which
  \<^verbatim>\<open>percentual_magicas\<close> is 100 times the sum, over the entries of \<^verbatim>\<open>MAGIC_WORDS\<close>, of
  their counts in the frequency table, divided by \<^verbatim>\<open>total_palavras\<close>, and 0 when
  \<^verbatim>\<open>total_palavras\<close> is 0. The count of a word in the table is the number of its
  occurrences among the tokens, 0 for a missing word; a word containing whitespace, such
  as \<^verbatim>\<open>por favor\<close>, is never a token and always counts 0. For the text
  \<^verbatim>\<open>obrigado obrigado teste\<close> and 1 minute: 3 words, the table
  \<^verbatim>\<open>[(obrigado, 2), (teste, 1)]\<close> and the percentage (2/3)*100.
\<close>

theorem percentual_magicas_formula:
  "(0 < duracao \<longrightarrow>
     (\<exists>st. calcular_estatisticas lower texto duracao = Inr st \<and>
        total_palavras st = length (split (lower texto)) \<and>
        (\<forall>w. counter_get (palavras_ordenadas st) w = count_list (split (lower texto)) w) \<and>
        (\<forall>w. (\<exists>c\<in>set w. isspace c) \<longrightarrow> counter_get (palavras_ordenadas st) w = 0) \<and>
        counter_get (palavras_ordenadas st) (u ''por favor'') = 0 \<and>
        percentual_magicas st =
          (if total_palavras st = 0 then 0
           else 100 * of_nat (sum_list (map (counter_get (palavras_ordenadas st)) MAGIC_WORDS)) /
                  of_nat (total_palavras st)))) \<and>
   calcular_estatisticas lower_latin1 (u ''obrigado obrigado teste'') 1 =
     Inr \<lparr>total_palavras = 3, palavras_por_minuto = Finite 3,
          palavras_ordenadas = [(u ''obrigado'', 2), (u ''teste'', 1)],
          percentual_magicas = (2 / 3) * 100\<rparr>"
proof (intro conjI impI)
  assume "0 < duracao"
  then have res: "calcular_estatisticas lower texto duracao =
     Inr \<lparr>total_palavras = length (split (lower texto)),
          palavras_por_minuto = float_quotient (of_nat (length (split (lower texto)))) duracao,
          palavras_ordenadas = most_common (Counter (split (lower texto))),
          percentual_magicas =
            (if length (split (lower texto)) > 0
             then (of_nat (sum_list (map (count_list (split (lower texto))) MAGIC_WORDS)) /
                     of_nat (length (split (lower texto)))) * 100
             else 0)\<rparr>"
    by (intro calcular_estatisticas_result) simp
  have lookup: "counter_get (most_common (Counter (split (lower texto)))) =
      count_list (split (lower texto))"
    by (rule ext) (rule table_lookup)
  have space: "isspace 0x20"
    by (simp add: isspace_def)
  have "count_list (split (lower texto)) (u ''por favor'') = 0"
    by (rule count_list_whitespace) (simp add: u_def space)
  then show "\<exists>st. calcular_estatisticas lower texto duracao = Inr st \<and>
        total_palavras st = length (split (lower texto)) \<and>
        (\<forall>w. counter_get (palavras_ordenadas st) w = count_list (split (lower texto)) w) \<and>
        (\<forall>w. (\<exists>c\<in>set w. isspace c) \<longrightarrow> counter_get (palavras_ordenadas st) w = 0) \<and>
        counter_get (palavras_ordenadas st) (u ''por favor'') = 0 \<and>
        percentual_magicas st =
          (if total_palavras st = 0 then 0
           else 100 * of_nat (sum_list (map (counter_get (palavras_ordenadas st)) MAGIC_WORDS)) /
                  of_nat (total_palavras st))"
    unfolding res by (simp add: lookup count_list_whitespace)
next
  show "calcular_estatisticas lower_latin1 (u ''obrigado obrigado teste'') 1 =
     Inr \<lparr>total_palavras = 3, palavras_por_minuto = Finite 3,
          palavras_ordenadas = [(u ''obrigado'', 2), (u ''teste'', 1)],
          percentual_magicas = (2 / 3) * 100\<rparr>"
    by (rule ex_stats)
qed

theorem percentual_magicas_formula_witness:
  "(0::rat) < 2 \<and>
   (\<exists>st. calcular_estatisticas lower_latin1 (u ''por favor obrigada'') 2 = Inr st \<and>
      total_palavras st = 3 \<and>
      counter_get (palavras_ordenadas st) (u ''por favor'') = 0 \<and>
      percentual_magicas st = 100 / 3)"
proof -
  have toks: "split (lower_latin1 (u ''por favor obrigada'')) = [u ''por'', u ''favor'', u ''obrigada'']"
    by (simp add: split_def lower_latin1_def u_def isspace_def)
  have magic: "sum_list (map (count_list [u ''por'', u ''favor'', u ''obrigada'']) MAGIC_WORDS) = 1"
    by (simp add: MAGIC_WORDS_def u_def)
  from percentual_magicas_formula [of 2 lower_latin1 "u ''por favor obrigada''"]
  obtain st where st: "calcular_estatisticas lower_latin1 (u ''por favor obrigada'') 2 = Inr st"
    "total_palavras st = length (split (lower_latin1 (u ''por favor obrigada'')))"
    "\<forall>w. counter_get (palavras_ordenadas st) w = count_list (split (lower_latin1 (u ''por favor obrigada''))) w"
    "counter_get (palavras_ordenadas st) (u ''por favor'') = 0"
    "percentual_magicas st =
          (if total_palavras st = 0 then 0
           else 100 * of_nat (sum_list (map (counter_get (palavras_ordenadas st)) MAGIC_WORDS)) /
                  of_nat (total_palavras st))"
    by auto
  from st(3) have "counter_get (palavras_ordenadas st) = count_list [u ''por'', u ''favor'', u ''obrigada'']"
    unfolding toks by (intro ext) simp
  with st(5) st(2) have "percentual_magicas st = 100 / 3"
    unfolding toks by (simp add: magic)
  with st show ?thesis
    unfolding toks by simp
qed

text \<open>
  C2. The classifier lowercases the text and splits it on whitespace; the positive count
  is the number of tokens equal to one of the positive keywords, the negative count
  likewise. It returns \<^verbatim>\<open>Satisfeito\<close> (positive) exactly when the positive count is the
  greater, \<^verbatim>\<open>Insatisfeito\<close> (negative) exactly when the negative count is the greater, and
  \<^verbatim>\<open>Neutro\<close> exactly when they are equal, 0 and 0 included. The three sentences of the
  specification classify as positive, negative and neutral.
\<close>

theorem analisar_sentimento_rule:
  "(analisar_sentimento lower texto = u ''Satisfeito'' \<longleftrightarrow>
      sum_list (map (count_list (split (lower texto))) negative_words) <
      sum_list (map (count_list (split (lower texto))) positive_words)) \<and>
   (analisar_sentimento lower texto = u ''Insatisfeito'' \<longleftrightarrow>
      sum_list (map (count_list (split (lower texto))) positive_words) <
      sum_list (map (count_list (split (lower texto))) negative_words)) \<and>
   (analisar_sentimento lower texto = u ''Neutro'' \<longleftrightarrow>
      sum_list (map (count_list (split (lower texto))) positive_words) =
      sum_list (map (count_list (split (lower texto))) negative_words)) \<and>
   analisar_sentimento lower_latin1 (u ''o atendimento foi '' @ [0xF3] @ u ''timo e excelente'') =
     u ''Satisfeito'' \<and>
   analisar_sentimento lower_latin1 (u ''o atendimento foi p'' @ [0xE9] @ u ''ssimo'') =
     u ''Insatisfeito'' \<and>
   analisar_sentimento lower_latin1 (u ''o atendimento foi normal'') = u ''Neutro''"
proof -
  let ?toks = "split (lower texto)"
  let ?pc = "sum_list (map (count_list ?toks) positive_words)"
  let ?nc = "sum_list (map (count_list ?toks) negative_words)"
  have pc: "sum_list (map (\<lambda>word. 1::nat) (filter (\<lambda>word. word \<in> set positive_words) ?toks)) = ?pc"
    by (simp only: sum_ones length_filter_member [OF distinct_keywords(1)])
  have nc: "sum_list (map (\<lambda>word. 1::nat) (filter (\<lambda>word. word \<in> set negative_words) ?toks)) = ?nc"
    by (simp only: sum_ones length_filter_member [OF distinct_keywords(2)])
  have val: "analisar_sentimento lower texto =
      (if ?pc > ?nc then u ''Satisfeito'' else if ?nc > ?pc then u ''Insatisfeito'' else u ''Neutro'')"
    unfolding analisar_sentimento_def Let_def pc nc ..
  have ne: "u ''Satisfeito'' \<noteq> u ''Insatisfeito''" "u ''Satisfeito'' \<noteq> u ''Neutro''"
    "u ''Insatisfeito'' \<noteq> u ''Neutro''"
    by (simp_all add: u_def)
  from ne have "(analisar_sentimento lower texto = u ''Satisfeito'' \<longleftrightarrow> ?nc < ?pc)"
    "(analisar_sentimento lower texto = u ''Insatisfeito'' \<longleftrightarrow> ?pc < ?nc)"
    "(analisar_sentimento lower texto = u ''Neutro'' \<longleftrightarrow> ?pc = ?nc)"
    unfolding val by auto
  with ex_sent show ?thesis by blast
qed

text \<open>
  C7 as stated fails: with the duration -1 the engine returns statistics, with -1 word
  per minute, and no error; and with the negative duration of the least magnitude that a
  double has, \<open>- (1 / 2 ^ 1074)\<close>, it returns statistics whose words per minute are minus
  infinity, again with no error.
\<close>

theorem negative_duration_counterexample:
  "calcular_estatisticas lower_latin1 (u ''a'') (- 1) =
     Inr \<lparr>total_palavras = 1, palavras_por_minuto = Finite (- 1),
          palavras_ordenadas = [(u ''a'', 1)], percentual_magicas = 0\<rparr> \<and>
   calcular_estatisticas lower_latin1 (u ''a'') (- (1 / 2 ^ 1074)) =
     Inr \<lparr>total_palavras = 1, palavras_por_minuto = NegInf,
          palavras_ordenadas = [(u ''a'', 1)], percentual_magicas = 0\<rparr>"
proof -
  have toks: "split (lower_latin1 (u ''a'')) = [u ''a'']"
    by (simp add: split_def lower_latin1_def u_def isspace_def)
  have c: "Counter [u ''a''] = [(u ''a'', 1)]"
    by (simp add: Counter_def)
  have m: "most_common [(u ''a'', 1::nat)] = [(u ''a'', 1)]"
    by (simp add: most_common_def)
  have g: "sum_list (map (counter_get [(u ''a'', 1)]) MAGIC_WORDS) = 0"
    by (simp add: MAGIC_WORDS_def counter_get_def u_def)
  have d1: "float_div (rat_of_nat (length [u ''a''])) (- 1) = Inr (Finite (- 1))"
    by (simp add: float_div_def float_quotient_small)
  have d2: "float_div (rat_of_nat (length [u ''a''])) (- (1 / 2 ^ 1074)) = Inr NegInf"
    using float_quotient_tiny by (simp add: float_div_def del: power_numeral)
  have "calcular_estatisticas lower_latin1 (u ''a'') (- 1) =
     Inr \<lparr>total_palavras = 1, palavras_por_minuto = Finite (- 1),
          palavras_ordenadas = [(u ''a'', 1)], percentual_magicas = 0\<rparr>"
    unfolding calcular_estatisticas_def toks Let_def c m g d1 by simp
  moreover have "calcular_estatisticas lower_latin1 (u ''a'') (- (1 / 2 ^ 1074)) =
     Inr \<lparr>total_palavras = 1, palavras_por_minuto = NegInf,
          palavras_ordenadas = [(u ''a'', 1)], percentual_magicas = 0\<rparr>"
    unfolding calcular_estatisticas_def toks Let_def c m g d2 by simp
  ultimately show ?thesis by (rule conjI)
qed

text \<open>
  C7, amended. For the duration 0 the engine fails with \<^verbatim>\<open>ZeroDivisionError\<close>, whatever
  the text. For a negative duration it does not fail: it returns statistics without any
  error, and their words per minute are the float quotient of the number of tokens by the
  duration. The exact quotient is at most 0; the value returned is minus infinity when
  the exact quotient is beyond the range of a double, and the quotient otherwise.
\<close>

theorem nonpositive_duration:
  "(duracao = 0 \<longrightarrow> calcular_estatisticas lower texto duracao = Inl ZeroDivisionError) \<and>
   (duracao < 0 \<longrightarrow>
      (\<exists>st. calcular_estatisticas lower texto duracao = Inr st \<and>
         palavras_por_minuto st =
           (if of_nat (length (split (lower texto))) / duracao \<le> - DBL_OVERFLOW then NegInf
            else Finite (of_nat (length (split (lower texto))) / duracao)) \<and>
         of_nat (length (split (lower texto))) / duracao \<le> 0))"
proof (intro conjI impI)
  assume "duracao = 0"
  then show "calcular_estatisticas lower texto duracao = Inl ZeroDivisionError"
    by (simp add: calcular_estatisticas_def float_div_def Let_def)
next
  assume neg: "duracao < 0"
  then have "duracao \<noteq> 0" by simp
  note res = calcular_estatisticas_result [OF this, of lower texto]
  from neg have le: "rat_of_nat (length (split (lower texto))) / duracao \<le> 0"
    by (simp add: divide_le_0_iff)
  have "float_quotient (rat_of_nat (length (split (lower texto)))) duracao =
      (if of_nat (length (split (lower texto))) / duracao \<le> - DBL_OVERFLOW then NegInf
       else Finite (of_nat (length (split (lower texto))) / duracao))"
    using neg by (intro float_quotient_nonpos) simp_all
  with le show "\<exists>st. calcular_estatisticas lower texto duracao = Inr st \<and>
         palavras_por_minuto st =
           (if of_nat (length (split (lower texto))) / duracao \<le> - DBL_OVERFLOW then NegInf
            else Finite (of_nat (length (split (lower texto))) / duracao)) \<and>
         of_nat (length (split (lower texto))) / duracao \<le> 0"
    unfolding res by simp
qed

theorem nonpositive_duration_witness:
  "calcular_estatisticas lower_latin1 (u ''a b'') 0 = Inl ZeroDivisionError \<and>
   (\<exists>st. calcular_estatisticas lower_latin1 (u ''a b'') (- 4) = Inr st \<and>
      palavras_por_minuto st = Finite (- (1 / 2))) \<and>
   (\<exists>st. calcular_estatisticas lower_latin1 (u ''a'') (- (1 / 2 ^ 1074)) = Inr st \<and>
      palavras_por_minuto st = NegInf)"
proof -
  have toks: "split (lower_latin1 (u ''a b'')) = [u ''a'', u ''b'']"
    "split (lower_latin1 (u ''a'')) = [u ''a'']"
    by (simp_all add: split_def lower_latin1_def u_def isspace_def)
  have small: "\<not> (- (1 / 2 :: rat) \<le> - DBL_OVERFLOW)"
    using DBL_OVERFLOW_lower by simp
  have "(2::rat) ^ 1024 \<le> 2 ^ 1074"
    by (rule power_increasing) simp_all
  moreover have "(0::rat) \<le> 2 ^ 970"
    by simp
  ultimately have big: "DBL_OVERFLOW \<le> 2 ^ 1074"
    unfolding DBL_OVERFLOW_def by linarith
  from nonpositive_duration [of 0 lower_latin1 "u ''a b''"]
  have "calcular_estatisticas lower_latin1 (u ''a b'') 0 = Inl ZeroDivisionError"
    by simp
  moreover from nonpositive_duration [of "- 4" lower_latin1 "u ''a b''"] small
  have "\<exists>st. calcular_estatisticas lower_latin1 (u ''a b'') (- 4) = Inr st \<and>
      palavras_por_minuto st = Finite (- (1 / 2))"
    unfolding toks by auto
  moreover from nonpositive_duration [of "- (1 / 2 ^ 1074)" lower_latin1 "u ''a''"] big
  have "\<exists>st. calcular_estatisticas lower_latin1 (u ''a'') (- (1 / 2 ^ 1074)) = Inr st \<and>
      palavras_por_minuto st = NegInf"
    unfolding toks by (auto simp del: power_numeral)
  ultimately show ?thesis by simp
qed

text \<open>
  C6. Whenever the engine returns (the duration is not 0), the ordered sequence of
  (word, count) pairs is sorted by descending count, and of two entries with equal counts
  the one that comes first is the word whose first occurrence in the token stream is the
  earlier. The result is a function of the input, so repeated runs agree.
\<close>

theorem palavras_ordenadas_order:
  "duracao \<noteq> 0 \<Longrightarrow>
     \<exists>st. calcular_estatisticas lower texto duracao = Inr st \<and>
       sorted_wrt (\<lambda>a b. snd b \<le> snd a) (palavras_ordenadas st) \<and>
       (\<forall>i j. i < j \<and> j < length (palavras_ordenadas st) \<and>
           snd (palavras_ordenadas st ! i) = snd (palavras_ordenadas st ! j) \<longrightarrow>
           first_occurrence (split (lower texto)) (fst (palavras_ordenadas st ! i)) <
           first_occurrence (split (lower texto)) (fst (palavras_ordenadas st ! j)))"
proof -
  assume "duracao \<noteq> 0"
  note res = calcular_estatisticas_result [OF this, of lower texto]
  let ?toks = "split (lower texto)"
  let ?po = "most_common (Counter ?toks)"
  note ord = table_order [of ?toks]
  have "sorted_wrt (\<lambda>a b. snd b \<le> snd a) ?po"
    using ord by (rule sorted_wrt_mono_rel [rotated]) auto
  moreover have "first_occurrence ?toks (fst (?po ! i)) < first_occurrence ?toks (fst (?po ! j))"
    if "i < j" "j < length ?po" "snd (?po ! i) = snd (?po ! j)" for i j
  proof -
    from ord that(1,2) have "snd (?po ! j) < snd (?po ! i) \<or>
        (snd (?po ! i) = snd (?po ! j) \<and>
         first_occurrence ?toks (fst (?po ! i)) < first_occurrence ?toks (fst (?po ! j)))"
      by (simp add: sorted_wrt_iff_nth_less)
    with that(3) show ?thesis by simp
  qed
  ultimately show ?thesis
    unfolding res by simp
qed

theorem palavras_ordenadas_order_witness:
  "(1::rat) \<noteq> 0 \<and>
   (\<exists>st. calcular_estatisticas lower_latin1 (u ''b a B c a'') 1 = Inr st \<and>
      palavras_ordenadas st = [(u ''b'', 2), (u ''a'', 2), (u ''c'', 1)] \<and>
      sorted_wrt (\<lambda>a b. snd b \<le> snd a) (palavras_ordenadas st) \<and>
      first_occurrence (split (lower_latin1 (u ''b a B c a''))) (fst (palavras_ordenadas st ! 0)) <
      first_occurrence (split (lower_latin1 (u ''b a B c a''))) (fst (palavras_ordenadas st ! 1)))"
proof -
  have toks: "split (lower_latin1 (u ''b a B c a'')) = [u ''b'', u ''a'', u ''b'', u ''c'', u ''a'']"
    by (simp add: split_def lower_latin1_def u_def isspace_def)
  have c: "Counter [u ''b'', u ''a'', u ''b'', u ''c'', u ''a''] = [(u ''b'', 2), (u ''a'', 2), (u ''c'', 1)]"
    by (simp add: Counter_def u_def)
  have m: "most_common [(u ''b'', 2::nat), (u ''a'', 2), (u ''c'', 1)] = [(u ''b'', 2), (u ''a'', 2), (u ''c'', 1)]"
    by (simp add: most_common_def)
  have val: "calcular_estatisticas lower_latin1 (u ''b a B c a'') 1 =
      Inr \<lparr>total_palavras = 5, palavras_por_minuto = Finite 5,
          palavras_ordenadas = [(u ''b'', 2), (u ''a'', 2), (u ''c'', 1)],
          percentual_magicas = 0\<rparr>"
    unfolding calcular_estatisticas_def toks Let_def c m
    by (simp add: MAGIC_WORDS_def counter_get_def u_def float_div_def float_quotient_small)
  from palavras_ordenadas_order [of 1 lower_latin1 "u ''b a B c a''"]
  obtain st where st: "calcular_estatisticas lower_latin1 (u ''b a B c a'') 1 = Inr st"
    and desc: "sorted_wrt (\<lambda>a b. snd b \<le> snd a) (palavras_ordenadas st)"
    and ties: "\<forall>i j. i < j \<and> j < length (palavras_ordenadas st) \<and>
           snd (palavras_ordenadas st ! i) = snd (palavras_ordenadas st ! j) \<longrightarrow>
           first_occurrence (split (lower_latin1 (u ''b a B c a''))) (fst (palavras_ordenadas st ! i)) <
           first_occurrence (split (lower_latin1 (u ''b a B c a''))) (fst (palavras_ordenadas st ! j))"
    by auto
  from st val have po: "palavras_ordenadas st = [(u ''b'', 2), (u ''a'', 2), (u ''c'', 1)]"
    by auto
  from ties [rule_format, of 0 1] po
  have "first_occurrence (split (lower_latin1 (u ''b a B c a''))) (fst (palavras_ordenadas st ! 0)) <
      first_occurrence (split (lower_latin1 (u ''b a B c a''))) (fst (palavras_ordenadas st ! 1))"
    by simp
  with st desc po show ?thesis by simp
qed

text \<open>
  C10. For a positive duration the engine returns statistics in which the counts of the
  ordered sequence add up to \<^verbatim>\<open>total_palavras\<close>, the words of the sequence are exactly
  the tokens, every token has exactly one entry, which carries the number of its
  occurrences, and \<^verbatim>\<open>percentual_magicas\<close> lies between 0 and 100.
\<close>

theorem estatisticas_invariants:
  "0 < duracao \<Longrightarrow>
     \<exists>st. calcular_estatisticas lower texto duracao = Inr st \<and>
       sum_list (map snd (palavras_ordenadas st)) = total_palavras st \<and>
       set (map fst (palavras_ordenadas st)) = set (split (lower texto)) \<and>
       (\<forall>w\<in>set (split (lower texto)).
          filter (\<lambda>e. fst e = w) (palavras_ordenadas st) =
            [(w, count_list (split (lower texto)) w)]) \<and>
       0 \<le> percentual_magicas st \<and> percentual_magicas st \<le> 100"
proof -
  assume "0 < duracao"
  then have "duracao \<noteq> 0" by simp
  note res = calcular_estatisticas_result [OF this, of lower texto]
  let ?toks = "split (lower texto)"
  let ?m = "sum_list (map (count_list ?toks) MAGIC_WORDS)"
  have "?m \<le> length ?toks"
    by (rule sum_counts_le) (rule distinct_MAGIC_WORDS)
  then have "rat_of_nat ?m \<le> rat_of_nat (length ?toks)"
    by (simp only: of_nat_le_iff)
  then have pct: "0 < length ?toks \<Longrightarrow> rat_of_nat ?m / rat_of_nat (length ?toks) * 100 \<le> 100"
    by (simp add: divide_le_eq)
  have "set (map fst (most_common (Counter ?toks))) = set ?toks"
    using keys_Counter [of ?toks] by (simp add: set_most_common)
  with pct show ?thesis
    unfolding res
    by (simp add: sum_most_common sum_Counter table_entry del: set_map)
qed

theorem estatisticas_invariants_witness:
  "(0::rat) < 1 \<and>
   (\<exists>st. calcular_estatisticas lower_latin1 (u ''obrigado obrigado teste'') 1 = Inr st \<and>
      sum_list (map snd (palavras_ordenadas st)) = total_palavras st \<and>
      filter (\<lambda>e. fst e = u ''teste'') (palavras_ordenadas st) = [(u ''teste'', 1)] \<and>
      0 \<le> percentual_magicas st \<and> percentual_magicas st \<le> 100)"
proof -
  have "count_list [u ''obrigado'', u ''obrigado'', u ''teste''] (u ''teste'') = 1"
    by (simp add: u_def)
  with estatisticas_invariants [of 1 lower_latin1 "u ''obrigado obrigado teste''"]
  show ?thesis
    unfolding ex_tokens by auto
qed

section \<open>Properties of the assembled transcript\<close>

lemma pairs_list_all2:
  "list_all2 (\<lambda>seg (timestamp, transcription).
       format_timestamp float_str (py_mul (seg_start seg) 1000) = Inr timestamp \<and>
       transcription = strip (seg_text seg)) segs (map (pair_of float_str) segs)"
  by (induction segs) (simp_all add: pair_of_def format_timestamp_stamp)

lemma format_transcription_loop_value:
  "format_transcription_loop float_str acc segs =
     Inr (acc @ concat (map (\<lambda>seg. (case pair_of float_str seg of (t, x) \<Rightarrow> t @ u '' '' @ x) @ [0x0A, 0x0A]) segs))"
  by (induction segs arbitrary: acc) (simp_all add: format_timestamp_stamp pair_of_def)

lemma concat_terminated:
  "concat (map (\<lambda>x. f x @ sep) xs) = join sep (map f xs) @ (if xs = [] then [] else sep)"
proof (induction xs)
  case Nil
  show ?case by simp
next
  case (Cons x xs)
  then show ?case by (cases xs) simp_all
qed

lemma strip_append_space:
  assumes "\<forall>c\<in>set ws. isspace c"
  shows "strip (xs @ ws) = strip xs"
proof (cases "\<forall>c\<in>set xs. isspace c")
  case True
  with assms have "dropWhile isspace (xs @ ws) = []" "dropWhile isspace xs = []"
    by simp_all
  then show ?thesis by (simp only: strip_def rev.simps dropWhile.simps)
next
  case False
  then have "dropWhile isspace (xs @ ws) = dropWhile isspace xs @ ws"
    by (auto simp: dropWhile_append)
  moreover from assms have "dropWhile isspace (rev ws @ ys) = dropWhile isspace ys" for ys
    by (simp add: dropWhile_append)
  ultimately show ?thesis by (simp add: strip_def)
qed

lemma format_transcription_value:
  "format_transcription float_str segs =
     Inr (strip (join [0x0A, 0x0A] (map (\<lambda>(t, x). t @ u '' '' @ x) (map (pair_of float_str) segs))))"
proof -
  have nl: "\<forall>c\<in>set (if segs = [] then [] else [0x0A, 0x0A]). isspace c"
    by (simp add: isspace_def)
  have "format_transcription float_str segs =
      Inr (strip (concat (map (\<lambda>seg. (case pair_of float_str seg of (t, x) \<Rightarrow> t @ u '' '' @ x) @ [0x0A, 0x0A]) segs)))"
    by (simp add: format_transcription_def format_transcription_loop_value)
  also have "concat (map (\<lambda>seg. (case pair_of float_str seg of (t, x) \<Rightarrow> t @ u '' '' @ x) @ [0x0A, 0x0A]) segs) =
      join [0x0A, 0x0A] (map (\<lambda>seg. case pair_of float_str seg of (t, x) \<Rightarrow> t @ u '' '' @ x) segs) @
        (if segs = [] then [] else [0x0A, 0x0A])"
    by (rule concat_terminated)
  also have "strip \<dots> = strip (join [0x0A, 0x0A] (map (\<lambda>seg. case pair_of float_str seg of (t, x) \<Rightarrow> t @ u '' '' @ x) segs))"
    using nl by (rule strip_append_space)
  finally show ?thesis by (simp add: comp_def)
qed

lemma generate_csv_loop_value:
  "generate_csv_loop float_str acc segs =
     Inr (acc @ concat (map (\<lambda>seg. writerow [fst (pair_of float_str seg), snd (pair_of float_str seg)]) segs))"
  by (induction segs arbitrary: acc) (simp_all add: format_timestamp_stamp pair_of_def)

lemma generate_csv_Inr: "\<exists>csv. generate_csv float_str segs est = Inr csv"
  by (simp add: generate_csv_def generate_csv_loop_value)

text \<open>
  C8. The assembled transcript is made of one line per segment, the timestamp of
  \<^verbatim>\<open>start * 1000\<close>, a space and the stripped text, joined by two newlines (one blank line
  between consecutive lines), the whole stripped. When the audio has a positive length,
  the request handler returns, and the statistics and the sentiment of its result are
  those of the engine and of the classifier on exactly this string.
\<close>

theorem format_transcription_assembly:
  "\<exists>pairs.
     list_all2 (\<lambda>seg (timestamp, transcription).
        format_timestamp float_str (py_mul (seg_start seg) 1000) = Inr timestamp \<and>
        transcription = strip (seg_text seg)) segs pairs \<and>
     format_transcription float_str segs =
       Inr (strip (join [0x0A, 0x0A]
              (map (\<lambda>(timestamp, transcription). timestamp @ u '' '' @ transcription) pairs))) \<and>
     (0 < audio_len \<longrightarrow>
        (\<exists>res. upload_audio lower float_str segs audio_len = Inr res \<and>
           formatted_transcription res =
             strip (join [0x0A, 0x0A]
               (map (\<lambda>(timestamp, transcription). timestamp @ u '' '' @ transcription) pairs)) \<and>
           calcular_estatisticas lower (formatted_transcription res)
             (of_nat audio_len / (1000 * 60)) = Inr (estatisticas res) \<and>
           sentimento res = analisar_sentimento lower (formatted_transcription res)))"
proof (intro exI [of _ "map (pair_of float_str) segs"] conjI impI)
  let ?T = "strip (join [0x0A, 0x0A] (map (\<lambda>(t, x). t @ u '' '' @ x) (map (pair_of float_str) segs)))"
  show "list_all2 (\<lambda>seg (timestamp, transcription).
        format_timestamp float_str (py_mul (seg_start seg) 1000) = Inr timestamp \<and>
        transcription = strip (seg_text seg)) segs (map (pair_of float_str) segs)"
    by (rule pairs_list_all2)
  show ft: "format_transcription float_str segs = Inr ?T"
    by (rule format_transcription_value)
  assume "0 < audio_len"
  then have "rat_of_nat audio_len / (1000 * 60) \<noteq> 0" by simp
  from calcular_estatisticas_result [OF this, of lower ?T]
  obtain est where est: "calcular_estatisticas lower ?T (rat_of_nat audio_len / (1000 * 60)) = Inr est"
    by blast
  obtain csv where csv: "generate_csv float_str segs est = Inr csv"
    using generate_csv_Inr by blast
  have "upload_audio lower float_str segs audio_len =
      Inr \<lparr>formatted_transcription = ?T, estatisticas = est,
           sentimento = analisar_sentimento lower ?T, csv_content = csv\<rparr>"
    unfolding upload_audio_def ft sum.case Let_def est csv ..
  with est show "\<exists>res. upload_audio lower float_str segs audio_len = Inr res \<and>
           formatted_transcription res = ?T \<and>
           calcular_estatisticas lower (formatted_transcription res)
             (of_nat audio_len / (1000 * 60)) = Inr (estatisticas res) \<and>
           sentimento res = analisar_sentimento lower (formatted_transcription res)"
    by simp
qed

theorem format_transcription_assembly_witness:
  "(0::nat) < 60000 \<and>
   (\<exists>res. upload_audio lower_latin1 (\<lambda>q. [])
       [\<lparr>seg_start = PyInt 0, seg_text = u '' Bom dia ''\<rparr>, \<lparr>seg_start = PyInt 61, seg_text = u ''obrigado''\<rparr>]
       60000 = Inr res \<and>
      formatted_transcription res = u ''(0:00) Bom dia'' @ [0x0A, 0x0A] @ u ''(1:01) obrigado'' \<and>
      calcular_estatisticas lower_latin1 (formatted_transcription res) 1 = Inr (estatisticas res) \<and>
      sentimento res = analisar_sentimento lower_latin1 (formatted_transcription res))"
proof -
  let ?segs = "[\<lparr>seg_start = PyInt 0, seg_text = u '' Bom dia ''\<rparr>, \<lparr>seg_start = PyInt 61, seg_text = u ''obrigado''\<rparr>]"
  have val: "format_transcription (\<lambda>q. []) ?segs =
      Inr (u ''(0:00) Bom dia'' @ [0x0A, 0x0A] @ u ''(1:01) obrigado'')"
    by (simp add: format_transcription_def format_timestamp_int str_int_def
          str_nat_small strip_def isspace_def u_def)
  from format_transcription_assembly [of "\<lambda>q. []" ?segs 60000 lower_latin1]
  obtain pairs res where
    ft: "format_transcription (\<lambda>q. []) ?segs =
       Inr (strip (join [0x0A, 0x0A]
              (map (\<lambda>(timestamp, transcription). timestamp @ u '' '' @ transcription) pairs)))"
    and res: "upload_audio lower_latin1 (\<lambda>q. []) ?segs 60000 = Inr res"
      "formatted_transcription res =
             strip (join [0x0A, 0x0A]
               (map (\<lambda>(timestamp, transcription). timestamp @ u '' '' @ transcription) pairs))"
      "calcular_estatisticas lower_latin1 (formatted_transcription res)
             (of_nat 60000 / (1000 * 60)) = Inr (estatisticas res)"
      "sentimento res = analisar_sentimento lower_latin1 (formatted_transcription res)"
    by auto
  from ft val res(2) have "formatted_transcription res =
      u ''(0:00) Bom dia'' @ [0x0A, 0x0A] @ u ''(1:01) obrigado''"
    by simp
  with res show ?thesis by simp
qed

section \<open>Properties of the report\<close>

subsection \<open>The writer on a concrete row\<close>

lemma writerow_example:
  "writerow [u ''(0:05)'', u ''a, '' @ [0x22] @ u ''b'' @ [0x22]] =
     u ''(0:05),'' @ [0x22] @ u ''a, '' @ [0x22, 0x22] @ u ''b'' @ [0x22, 0x22, 0x22, 0x0D, 0x0A]"
  by (simp add: writerow_def csv_field_def csv_special_def u_def)

subsection \<open>The reader, one character after the other\<close>

lemma readlines_cur:
  "cont \<noteq> [] \<Longrightarrow> \<exists>l ls. readlines [] cont = l # ls \<and> (\<forall>cur. readlines cur cont = (cur @ l) # ls)"
proof (induction cont)
  case Nil
  then show ?case by simp
next
  case (Cons c t)
  show ?case
  proof (cases t)
    case Nil
    then show ?thesis by simp
  next
    case (Cons d cs)
    show ?thesis
    proof (cases "c = 0x0A \<or> c = 0x0D")
      case True
      with Cons show ?thesis by auto
    next
      case False
      from Cons Cons.IH obtain l ls where
        l: "readlines [] t = l # ls" "\<forall>cur. readlines cur t = (cur @ l) # ls"
        by auto
      from False Cons have "readlines cur (c # t) = readlines (cur @ [c]) t" for cur
        by simp
      with l have "readlines [] (c # t) = (c # l) # ls \<and> (\<forall>cur. readlines cur (c # t) = (cur @ c # l) # ls)"
        by simp
      then show ?thesis by blast
    qed
  qed
qed

lemma run_plain:
  assumes "c \<noteq> 0x0A" "c \<noteq> 0x0D" "cont \<noteq> []" "parse_process_char r (Some c) = Inr r'"
  shows "reader_rows r (readlines [] (c # cont)) = reader_rows r' (readlines [] cont)"
proof -
  from readlines_cur [OF assms(3)] obtain l ls where
    l: "readlines [] cont = l # ls" "\<forall>cur. readlines cur cont = (cur @ l) # ls"
    by blast
  from assms(1-3) have "readlines [] (c # cont) = readlines [c] cont"
    by (cases cont) simp_all
  with l have "readlines [] (c # cont) = (c # l) # ls" by simp
  with l(1) assms(4) show ?thesis by simp
qed

lemma readlines_LF: "readlines [] (0x0A # cont) = [0x0A] # readlines [] cont"
  by (cases cont) simp_all

lemma readlines_CRLF: "readlines [] (0x0D # 0x0A # cont) = [0x0D, 0x0A] # readlines [] cont"
  by simp

lemma readlines_CR: "cont = [] \<or> hd cont \<noteq> 0x0A \<Longrightarrow> readlines [] (0x0D # cont) = [0x0D] # readlines [] cont"
  by (cases cont) auto

lemma run_quoted_char:
  assumes "rd_state r = IN_QUOTED_FIELD" "c \<noteq> 0x22" "cont \<noteq> []"
  shows "reader_rows r (readlines [] (c # cont)) = reader_rows (parse_add_char r c) (readlines [] cont)"
proof -
  have step: "parse_process_char q (Some d) = Inr (parse_add_char q d)"
    if "rd_state q = IN_QUOTED_FIELD" "d \<noteq> 0x22" for q d
    using that by (simp add: parse_process_char_def)
  have eol: "parse_process_char q None = Inr q" if "rd_state q = IN_QUOTED_FIELD" for q
    using that by (simp add: parse_process_char_def)
  have st: "rd_state (parse_add_char q d) = rd_state q" for q d
    by (simp add: parse_add_char_def)
  have lf: "reader_rows q (readlines [] (0x0A # t)) = reader_rows (parse_add_char q 0x0A) (readlines [] t)"
    if "rd_state q = IN_QUOTED_FIELD" for q t
    using that by (simp add: readlines_LF step eol st)
  consider "c = 0x0A" | "c = 0x0D" | "c \<noteq> 0x0A" "c \<noteq> 0x0D" by blast
  then show ?thesis
  proof cases
    case 1
    with assms(1) show ?thesis by (simp only: lf)
  next
    case 2
    from assms(3) obtain d cs where cont: "cont = d # cs" by (cases cont) auto
    show ?thesis
    proof (cases "d = 0x0A")
      case True
      have "reader_rows r (readlines [] (0x0D # 0x0A # cs)) =
          reader_rows (parse_add_char (parse_add_char r 0x0D) 0x0A) (readlines [] cs)"
        using assms(1) by (simp add: step eol st)
      also have "\<dots> = reader_rows (parse_add_char r 0x0D) (readlines [] (0x0A # cs))"
        using assms(1) by (simp only: lf st)
      finally show ?thesis using 2 cont True by simp
    next
      case False
      with cont have "readlines [] (0x0D # cont) = [0x0D] # readlines [] cont"
        by (intro readlines_CR) simp
      with 2 assms(1) show ?thesis by (simp add: step eol st)
    qed
  next
    case 3
    with assms show ?thesis
      by (intro run_plain) (simp_all add: parse_process_char_def)
  qed
qed

lemma run_double:
  assumes "rd_state r = IN_QUOTED_FIELD" "cont \<noteq> []"
  shows "reader_rows r (readlines [] (csv_double f @ cont)) =
     reader_rows (r\<lparr>rd_field := rd_field r @ f\<rparr>) (readlines [] cont)"
  using assms
proof (induction f arbitrary: r)
  case Nil
  then show ?case by simp
next
  case (Cons c f)
  have rest: "csv_double f @ cont \<noteq> []"
    using Cons.prems(2) by simp
  have next_state: "rd_state (parse_add_char r c) = IN_QUOTED_FIELD"
    using Cons.prems(1) by (simp add: parse_add_char_def)
  have fld: "(parse_add_char r c)\<lparr>rd_field := rd_field (parse_add_char r c) @ f\<rparr> =
      r\<lparr>rd_field := rd_field r @ c # f\<rparr>"
    by (simp add: parse_add_char_def)
  show ?case
  proof (cases "c = 0x22")
    case True
    let ?r1 = "r\<lparr>rd_state := QUOTE_IN_QUOTED_FIELD\<rparr>"
    have "reader_rows r (readlines [] (0x22 # 0x22 # csv_double f @ cont)) =
        reader_rows ?r1 (readlines [] (0x22 # csv_double f @ cont))"
      using Cons.prems(1) by (intro run_plain) (simp_all add: parse_process_char_def)
    also have "\<dots> = reader_rows (parse_add_char r c) (readlines [] (csv_double f @ cont))"
      using rest True Cons.prems(1)
      by (intro run_plain) (simp_all add: parse_process_char_def parse_add_char_def)
    also have "\<dots> = reader_rows (r\<lparr>rd_field := rd_field r @ c # f\<rparr>) (readlines [] cont)"
      using Cons.IH [OF next_state Cons.prems(2)] by (simp only: fld)
    finally show ?thesis using True by simp
  next
    case False
    have "reader_rows r (readlines [] (c # csv_double f @ cont)) =
        reader_rows (parse_add_char r c) (readlines [] (csv_double f @ cont))"
      using Cons.prems(1) False rest by (rule run_quoted_char)
    also have "\<dots> = reader_rows (r\<lparr>rd_field := rd_field r @ c # f\<rparr>) (readlines [] cont)"
      using Cons.IH [OF next_state Cons.prems(2)] by (simp only: fld)
    finally show ?thesis using False by simp
  qed
qed

subsection \<open>Fields and rows\<close>

lemma run_unquoted:
  assumes "rd_state r = IN_FIELD" "\<not> list_ex csv_special f" "cont \<noteq> []"
  shows "reader_rows r (readlines [] (f @ cont)) =
     reader_rows (r\<lparr>rd_field := rd_field r @ f\<rparr>) (readlines [] cont)"
  using assms
proof (induction f arbitrary: r)
  case Nil
  then show ?case by simp
next
  case (Cons c f)
  from Cons.prems(2) have "\<not> csv_special c" and f: "\<not> list_ex csv_special f"
    by simp_all
  then have c: "c \<noteq> 0x2C" "c \<noteq> 0x22" "c \<noteq> 0x0D" "c \<noteq> 0x0A"
    by (simp_all add: csv_special_def)
  have st: "rd_state (parse_add_char r c) = IN_FIELD"
    using Cons.prems(1) by (simp add: parse_add_char_def)
  have fld: "(parse_add_char r c)\<lparr>rd_field := rd_field (parse_add_char r c) @ f\<rparr> =
      r\<lparr>rd_field := rd_field r @ c # f\<rparr>"
    by (simp add: parse_add_char_def)
  have "reader_rows r (readlines [] (c # f @ cont)) =
      reader_rows (parse_add_char r c) (readlines [] (f @ cont))"
    using c Cons.prems(1,3) by (intro run_plain) (simp_all add: parse_process_char_def)
  also have "\<dots> = reader_rows (r\<lparr>rd_field := rd_field r @ c # f\<rparr>) (readlines [] cont)"
    using Cons.IH [OF st f Cons.prems(3)] by (simp only: fld)
  finally show ?case by simp
qed

lemma run_end_record:
  assumes "rd_state r = IN_FIELD \<or> rd_state r = QUOTE_IN_QUOTED_FIELD \<or> rd_state r = START_FIELD"
  shows "reader_rows r (readlines [] (0x0D # 0x0A # cont)) =
     emit (rd_fields r @ [rd_field r]) (reader_rows parse_reset (readlines [] cont))"
  using assms
  by (auto simp: parse_process_char_def start_field_def parse_save_field_def emit_def
        split: sum.splits)

lemma run_comma:
  assumes "rd_state r = IN_FIELD \<or> rd_state r = QUOTE_IN_QUOTED_FIELD \<or> rd_state r = START_FIELD
      \<or> (rd_state r = START_RECORD)"
    and "cont \<noteq> []"
  shows "reader_rows r (readlines [] (0x2C # cont)) =
     reader_rows \<lparr>rd_state = START_FIELD, rd_field = [], rd_fields = rd_fields r @ [rd_field r]\<rparr>
       (readlines [] cont)"
  using assms
  by (intro run_plain) (auto simp: parse_process_char_def start_field_def parse_save_field_def)

lemma run_quoted_field:
  assumes "fresh r" "cont \<noteq> []"
  shows "reader_rows r (readlines [] (0x22 # csv_double f @ 0x22 # cont)) =
     reader_rows \<lparr>rd_state = QUOTE_IN_QUOTED_FIELD, rd_field = f, rd_fields = rd_fields r\<rparr>
       (readlines [] cont)"
proof -
  let ?r1 = "\<lparr>rd_state = IN_QUOTED_FIELD, rd_field = [], rd_fields = rd_fields r\<rparr>"
  let ?r2 = "\<lparr>rd_state = IN_QUOTED_FIELD, rd_field = f, rd_fields = rd_fields r\<rparr>"
  have "reader_rows r (readlines [] (0x22 # csv_double f @ 0x22 # cont)) =
      reader_rows ?r1 (readlines [] (csv_double f @ 0x22 # cont))"
    using assms(1)
    by (intro run_plain) (auto simp: fresh_def parse_process_char_def start_field_def)
  also have "\<dots> = reader_rows (?r1\<lparr>rd_field := rd_field ?r1 @ f\<rparr>) (readlines [] (0x22 # cont))"
    by (intro run_double) simp_all
  also have "\<dots> = reader_rows ?r2 (readlines [] (0x22 # cont))"
    by simp
  also have "\<dots> = reader_rows \<lparr>rd_state = QUOTE_IN_QUOTED_FIELD, rd_field = f, rd_fields = rd_fields r\<rparr>
       (readlines [] cont)"
    using assms(2) by (intro run_plain) (simp_all add: parse_process_char_def)
  finally show ?thesis .
qed

lemma run_plain_field:
  assumes "fresh r" "cont \<noteq> []" "\<not> list_ex csv_special f" "f \<noteq> []"
  shows "reader_rows r (readlines [] (f @ cont)) =
     reader_rows \<lparr>rd_state = IN_FIELD, rd_field = f, rd_fields = rd_fields r\<rparr> (readlines [] cont)"
proof -
  from assms(4) obtain c g where f: "f = c # g" by (cases f) auto
  with assms(3) have "\<not> csv_special c" and g: "\<not> list_ex csv_special g"
    by simp_all
  then have c: "c \<noteq> 0x2C" "c \<noteq> 0x22" "c \<noteq> 0x0D" "c \<noteq> 0x0A"
    by (simp_all add: csv_special_def)
  let ?r1 = "\<lparr>rd_state = IN_FIELD, rd_field = [c], rd_fields = rd_fields r\<rparr>"
  have "reader_rows r (readlines [] (c # g @ cont)) = reader_rows ?r1 (readlines [] (g @ cont))"
    using assms(1,2) c
    by (intro run_plain)
      (auto simp: fresh_def parse_process_char_def start_field_def parse_add_char_def)
  also have "\<dots> = reader_rows (?r1\<lparr>rd_field := rd_field ?r1 @ g\<rparr>) (readlines [] cont)"
    using g assms(2) by (intro run_unquoted) simp_all
  finally show ?thesis using f by simp
qed

lemma run_field_comma:
  assumes "fresh r" "cont \<noteq> []"
  shows "reader_rows r (readlines [] (csv_field f @ 0x2C # cont)) =
     reader_rows \<lparr>rd_state = START_FIELD, rd_field = [], rd_fields = rd_fields r @ [f]\<rparr>
       (readlines [] cont)"
proof (cases "list_ex csv_special f")
  case True
  then have "csv_field f @ 0x2C # cont = 0x22 # csv_double f @ 0x22 # 0x2C # cont"
    by (simp add: csv_field_def)
  with assms show ?thesis
    by (simp add: run_quoted_field run_comma)
next
  case False
  note plain = this
  show ?thesis
  proof (cases "f = []")
    case True
    with plain assms show ?thesis
      by (auto simp: csv_field_def fresh_def run_comma)
  next
    case False
    with plain assms show ?thesis
      by (simp add: csv_field_def run_plain_field run_comma)
  qed
qed

lemma run_field_end:
  assumes "fresh r" "f = [] \<longrightarrow> rd_state r = START_FIELD"
  shows "reader_rows r (readlines [] (csv_field f @ 0x0D # 0x0A # cont)) =
     emit (rd_fields r @ [f]) (reader_rows parse_reset (readlines [] cont))"
proof (cases "list_ex csv_special f")
  case True
  let ?r1 = "\<lparr>rd_state = QUOTE_IN_QUOTED_FIELD, rd_field = f, rd_fields = rd_fields r\<rparr>"
  from True have "csv_field f @ 0x0D # 0x0A # cont = 0x22 # csv_double f @ 0x22 # 0x0D # 0x0A # cont"
    by (simp add: csv_field_def)
  moreover have "reader_rows r (readlines [] (0x22 # csv_double f @ 0x22 # 0x0D # 0x0A # cont)) =
      reader_rows ?r1 (readlines [] (0x0D # 0x0A # cont))"
    using assms(1) by (intro run_quoted_field) simp_all
  moreover have "reader_rows ?r1 (readlines [] (0x0D # 0x0A # cont)) =
      emit (rd_fields ?r1 @ [rd_field ?r1]) (reader_rows parse_reset (readlines [] cont))"
    by (rule run_end_record) simp
  ultimately show ?thesis by simp
next
  case False
  note plain = this
  show ?thesis
  proof (cases "f = []")
    case True
    with assms have "reader_rows r (readlines [] (0x0D # 0x0A # cont)) =
        emit (rd_fields r @ [rd_field r]) (reader_rows parse_reset (readlines [] cont))"
      by (intro run_end_record) simp
    with True plain assms(1) show ?thesis
      by (simp add: csv_field_def fresh_def)
  next
    case False
    let ?r1 = "\<lparr>rd_state = IN_FIELD, rd_field = f, rd_fields = rd_fields r\<rparr>"
    have "reader_rows r (readlines [] (f @ 0x0D # 0x0A # cont)) =
        reader_rows ?r1 (readlines [] (0x0D # 0x0A # cont))"
      using assms(1) plain False by (intro run_plain_field) simp_all
    moreover have "reader_rows ?r1 (readlines [] (0x0D # 0x0A # cont)) =
        emit (rd_fields ?r1 @ [rd_field ?r1]) (reader_rows parse_reset (readlines [] cont))"
      by (rule run_end_record) simp
    ultimately show ?thesis using plain by (simp add: csv_field_def)
  qed
qed

lemma run_fields:
  assumes "fresh r" "fs = [] \<and> f = [] \<longrightarrow> rd_state r = START_FIELD"
  shows "reader_rows r (readlines [] (join [0x2C] (map csv_field (f # fs)) @ 0x0D # 0x0A # cont)) =
     emit (rd_fields r @ f # fs) (reader_rows parse_reset (readlines [] cont))"
  using assms
proof (induction fs arbitrary: r f)
  case Nil
  then show ?case by (simp add: run_field_end)
next
  case (Cons g gs)
  let ?r1 = "\<lparr>rd_state = START_FIELD, rd_field = [], rd_fields = rd_fields r @ [f]\<rparr>"
  have "fresh ?r1" by (simp add: fresh_def)
  then have "reader_rows ?r1 (readlines [] (join [0x2C] (map csv_field (g # gs)) @ 0x0D # 0x0A # cont)) =
      emit (rd_fields ?r1 @ g # gs) (reader_rows parse_reset (readlines [] cont))"
    by (rule Cons.IH) simp
  with Cons.prems(1) show ?case
    by (simp add: run_field_comma)
qed

lemma run_writerow:
  "reader_rows parse_reset (readlines [] (writerow row @ cont)) =
     emit row (reader_rows parse_reset (readlines [] cont))"
proof -
  have fr: "fresh parse_reset" by (simp add: fresh_def parse_reset_def)
  consider "row = []" | "row = [[]]" | f fs where "row = f # fs" "fs = [] \<longrightarrow> f \<noteq> []"
    by (cases row) auto
  then show ?thesis
  proof cases
    case 1
    then show ?thesis
      by (simp add: writerow_def parse_reset_def parse_process_char_def emit_def
            split: sum.splits)
  next
    case 2
    let ?r1 = "\<lparr>rd_state = QUOTE_IN_QUOTED_FIELD, rd_field = [], rd_fields = rd_fields parse_reset\<rparr>"
    have "reader_rows parse_reset (readlines [] (0x22 # csv_double [] @ 0x22 # 0x0D # 0x0A # cont)) =
        reader_rows ?r1 (readlines [] (0x0D # 0x0A # cont))"
      using fr by (intro run_quoted_field) simp_all
    moreover have "reader_rows ?r1 (readlines [] (0x0D # 0x0A # cont)) =
        emit (rd_fields ?r1 @ [rd_field ?r1]) (reader_rows parse_reset (readlines [] cont))"
      by (rule run_end_record) simp
    moreover have "rd_fields parse_reset = []"
      by (simp add: parse_reset_def)
    ultimately show ?thesis using 2 by (simp add: writerow_def)
  next
    case 3
    then have "row \<noteq> [[]]" by auto
    moreover have "rd_fields parse_reset = []" "rd_state parse_reset = START_RECORD"
      by (simp_all add: parse_reset_def)
    ultimately show ?thesis
      using 3 fr run_fields [of parse_reset fs f cont]
      by (auto simp add: writerow_def)
  qed
qed

lemma csv_reader_rows: "csv_reader (concat (map writerow rows)) = Inr rows"
  unfolding csv_reader_def
proof (induction rows)
  case Nil
  show ?case by (simp add: parse_reset_def)
next
  case (Cons row rows)
  then show ?case by (simp add: run_writerow emit_def)
qed

subsection \<open>The rows of the report\<close>

lemma generate_csv_rows:
  "generate_csv float_str segs est = Inr (concat (map writerow (report_rows float_str segs est)))"
proof -
  have "concat (map (\<lambda>(palavra, quantidade). writerow [palavra, str_int (int quantidade)]) po) =
      concat (map writerow (map (\<lambda>(palavra, quantidade). [palavra, str_int (int quantidade)]) po))"
    for po :: "(ustring \<times> nat) list"
    by (induction po) auto
  then show ?thesis
    by (simp add: generate_csv_def generate_csv_loop_value report_rows_def comp_def)
qed

lemma segment_rows_of_report:
  "takeWhile (\<lambda>row. row \<noteq> [[], []]) (tl (report_rows float_str segs est)) =
     map (\<lambda>(timestamp, transcription). [timestamp, transcription]) (map (pair_of float_str) segs)"
proof -
  have "takeWhile (\<lambda>row. row \<noteq> [[], []]) (map (\<lambda>seg. [fst (pair_of float_str seg), snd (pair_of float_str seg)]) segs @ [[], []] # more) =
      map (\<lambda>seg. [fst (pair_of float_str seg), snd (pair_of float_str seg)]) segs" for more
    by (induction segs) (simp_all add: pair_of_def stamp_not_empty)
  then show ?thesis
    by (simp add: report_rows_def comp_def case_prod_unfold)
qed

text \<open>
  C9. For every sequence of segments and every statistics value, reading the report
  back with a CSV reader of the same dialect succeeds; the first row is the header, and
  the rows after it up to the first blank row are exactly the (timestamp, transcription)
  pairs of the segments, in order, the same pairs from which the transcript is
  assembled. The blank row is the row number N + 1.
\<close>

theorem report_round_trip:
  "\<exists>pairs csv rows.
     list_all2 (\<lambda>seg (timestamp, transcription).
        format_timestamp float_str (py_mul (seg_start seg) 1000) = Inr timestamp \<and>
        transcription = strip (seg_text seg)) segs pairs \<and>
     format_transcription float_str segs =
       Inr (strip (join [0x0A, 0x0A]
              (map (\<lambda>(timestamp, transcription). timestamp @ u '' '' @ transcription) pairs))) \<and>
     generate_csv float_str segs est = Inr csv \<and>
     csv_reader csv = Inr rows \<and>
     hd rows = [u ''timestamp'', u ''transcription''] \<and>
     takeWhile (\<lambda>row. row \<noteq> [[], []]) (tl rows) =
       map (\<lambda>(timestamp, transcription). [timestamp, transcription]) pairs \<and>
     Suc (length segs) < length rows \<and> rows ! Suc (length segs) = [[], []]"
proof (intro exI [of _ "map (pair_of float_str) segs"]
    exI [of _ "concat (map writerow (report_rows float_str segs est))"]
    exI [of _ "report_rows float_str segs est"] conjI)
  show "list_all2 (\<lambda>seg (timestamp, transcription).
        format_timestamp float_str (py_mul (seg_start seg) 1000) = Inr timestamp \<and>
        transcription = strip (seg_text seg)) segs (map (pair_of float_str) segs)"
    by (rule pairs_list_all2)
  show "format_transcription float_str segs =
       Inr (strip (join [0x0A, 0x0A]
              (map (\<lambda>(timestamp, transcription). timestamp @ u '' '' @ transcription) (map (pair_of float_str) segs))))"
    by (rule format_transcription_value)
  show "generate_csv float_str segs est = Inr (concat (map writerow (report_rows float_str segs est)))"
    by (rule generate_csv_rows)
  show "csv_reader (concat (map writerow (report_rows float_str segs est))) =
      Inr (report_rows float_str segs est)"
    by (rule csv_reader_rows)
  show "hd (report_rows float_str segs est) = [u ''timestamp'', u ''transcription'']"
    by (simp add: report_rows_def)
  show "takeWhile (\<lambda>row. row \<noteq> [[], []]) (tl (report_rows float_str segs est)) =
       map (\<lambda>(timestamp, transcription). [timestamp, transcription]) (map (pair_of float_str) segs)"
    by (rule segment_rows_of_report)
  show "Suc (length segs) < length (report_rows float_str segs est)"
    by (simp add: report_rows_def)
  show "report_rows float_str segs est ! Suc (length segs) = [[], []]"
    by (simp add: report_rows_def nth_append)
qed

section \<open>Properties of the normalisation\<close>

subsection \<open>Collapsed whitespace and stripping\<close>

lemma isspace_space: "isspace 0x20"
  by (simp add: isspace_def)

lemma collapsed_sub_ws: "collapsed b (sub_ws b s)"
  by (induction s arbitrary: b) (simp_all add: isspace_space)

lemma sub_ws_collapsed: "collapsed b s \<Longrightarrow> sub_ws b s = s"
  by (induction s arbitrary: b) (auto split: if_splits)

lemma collapsed_weaken: "collapsed b s \<Longrightarrow> collapsed False s"
  by (cases s) (auto split: if_splits)

lemma collapsed_prefix: "collapsed b (xs @ ys) \<Longrightarrow> collapsed b xs"
  by (induction xs arbitrary: b) (auto split: if_splits)

lemma collapsed_dropWhile: "collapsed b s \<Longrightarrow> collapsed False (dropWhile isspace s)"
proof (induction s arbitrary: b)
  case Nil
  show ?case by simp
next
  case (Cons c cs)
  show ?case
  proof (cases "isspace c")
    case True
    with Cons.prems have "collapsed True cs" by simp
    then have "collapsed False (dropWhile isspace cs)" by (rule Cons.IH)
    with True show ?thesis by simp
  next
    case False
    with Cons.prems show ?thesis by simp
  qed
qed

lemma strip_prefix: "\<exists>ws. dropWhile isspace s = strip s @ ws \<and> (\<forall>c\<in>set ws. isspace c)"
proof -
  let ?z = "dropWhile isspace s"
  have "rev ?z = takeWhile isspace (rev ?z) @ dropWhile isspace (rev ?z)"
    by simp
  then have "?z = rev (dropWhile isspace (rev ?z)) @ rev (takeWhile isspace (rev ?z))"
    by (metis rev_append rev_rev_ident)
  moreover have "\<forall>c\<in>set (rev (takeWhile isspace (rev ?z))). isspace c"
    by (auto dest: set_takeWhileD)
  ultimately show ?thesis
    unfolding strip_def by blast
qed

lemma collapsed_strip: "collapsed b s \<Longrightarrow> collapsed False (strip s)"
proof -
  assume "collapsed b s"
  then have "collapsed False (dropWhile isspace s)" by (rule collapsed_dropWhile)
  moreover obtain ws where "dropWhile isspace s = strip s @ ws"
    using strip_prefix by blast
  ultimately show ?thesis by (simp add: collapsed_prefix)
qed

lemma takeWhile_strip:
  "takeWhile isspace (strip s) = []" "takeWhile isspace (rev (strip s)) = []"
proof -
  let ?z = "dropWhile isspace s"
  let ?d = "dropWhile isspace (rev ?z)"
  have ss: "strip s = rev ?d" "rev (strip s) = ?d"
    by (simp_all add: strip_def)
  show "takeWhile isspace (rev (strip s)) = []"
  proof (cases "?d = []")
    case True
    then show ?thesis by (simp only: ss(2) takeWhile.simps)
  next
    case False
    then have "\<not> isspace (hd ?d)" by (rule hd_dropWhile)
    with False show ?thesis
      by (simp only: ss(2) takeWhile_eq_Nil_iff) simp
  qed
  show "takeWhile isspace (strip s) = []"
  proof (cases "?d = []")
    case True
    then show ?thesis by (simp only: ss(1) rev.simps takeWhile.simps)
  next
    case False
    have z: "?z \<noteq> []"
    proof
      assume "?z = []"
      then have "?d = []" by (simp only: rev.simps dropWhile.simps)
      with False show False by contradiction
    qed
    from z have "\<not> isspace (hd ?z)" by (rule hd_dropWhile)
    moreover have "rev ?z = takeWhile isspace (rev ?z) @ ?d" by simp
    with False have "last ?d = last (rev ?z)"
      by (metis last_appendR)
    with z have "last ?d = hd ?z" by (simp add: last_rev)
    ultimately have "\<not> isspace (hd (rev ?d))"
      using False by (simp only: hd_rev) simp
    with False show ?thesis
      by (simp only: ss(1) takeWhile_eq_Nil_iff) simp
  qed
qed

lemma strip_fixed: "takeWhile isspace s = [] \<Longrightarrow> takeWhile isspace (rev s) = [] \<Longrightarrow> strip s = s"
proof -
  assume a: "takeWhile isspace s = []" "takeWhile isspace (rev s) = []"
  have "dropWhile isspace s = s"
    using takeWhile_dropWhile_id [of isspace s] a(1) by simp
  moreover have "dropWhile isspace (rev s) = rev s"
    using takeWhile_dropWhile_id [of isspace "rev s"] a(2) by simp
  ultimately show ?thesis by (simp add: strip_def)
qed

lemma strip_strip: "strip (strip s) = strip s"
  by (rule strip_fixed) (rule takeWhile_strip)+

subsection \<open>Texts without a connector\<close>

lemma length_sub_connector: "length s \<le> length (sub_connector alnum p k s)"
proof (induction s arbitrary: p k)
  case Nil
  show ?case by simp
next
  case (Cons c cs)
  have "length cs \<le> length (sub_connector alnum q j cs)" for q j
    by (rule Cons.IH)
  then show ?case
    by (auto simp: le_SucI split: option.splits)
qed

lemma no_match_step:
  assumes "sub_connector alnum p 0 (c # cs) = c # cs"
  shows "match_connector alnum p (c # cs) = None"
    and "sub_connector alnum (word_char alnum c) 0 cs = cs"
proof -
  show m: "match_connector alnum p (c # cs) = None"
  proof (cases "match_connector alnum p (c # cs)")
    case None
    then show ?thesis .
  next
    case (Some n)
    have "length (sub_connector alnum p 0 (c # cs)) = Suc (length cs)"
      by (simp only: assms length_Cons)
    moreover have "length (sub_connector alnum p 0 (c # cs)) =
        3 + length (sub_connector alnum (word_char alnum c) (n - 1) cs)"
      using Some by simp
    moreover have "length cs \<le> length (sub_connector alnum (word_char alnum c) (n - 1) cs)"
      by (rule length_sub_connector)
    ultimately show ?thesis by simp
  qed
  with assms show "sub_connector alnum (word_char alnum c) 0 cs = cs"
    by simp
qed

lemma space_not_word:
  assumes "\<forall>c. isspace c \<longrightarrow> \<not> alnum c" "isspace c"
  shows "\<not> word_char alnum c"
proof -
  from assms have "\<not> alnum c" by blast
  moreover from assms(2) have "c \<noteq> 0x5F" by (auto simp: isspace_def)
  ultimately show ?thesis by (simp add: word_char_def)
qed

lemma no_match_dropWhile:
  assumes ws: "\<forall>c. isspace c \<longrightarrow> \<not> alnum c"
    and "sub_connector alnum False 0 s = s"
  shows "sub_connector alnum False 0 (dropWhile isspace s) = dropWhile isspace s"
  using assms(2)
proof (induction s)
  case Nil
  show ?case by simp
next
  case (Cons c cs)
  show ?case
  proof (cases "isspace c")
    case True
    with ws have "\<not> word_char alnum c"
      by (rule space_not_word)
    with no_match_step(2) [OF Cons.prems] have "sub_connector alnum False 0 cs = cs"
      by simp
    then have "sub_connector alnum False 0 (dropWhile isspace cs) = dropWhile isspace cs"
      by (rule Cons.IH)
    with True show ?thesis by simp
  next
    case False
    with Cons.prems show ?thesis by simp
  qed
qed

lemma boundary_append:
  assumes "\<forall>c\<in>set ws. \<not> word_char alnum c"
  shows "boundary alnum p (cs @ ws) = boundary alnum p cs"
proof (cases cs)
  case Nil
  with assms show ?thesis by (cases ws) (simp_all add: boundary_def)
next
  case (Cons d ds)
  then show ?thesis by (simp add: boundary_def)
qed

lemma literal_ci_append: "literal_ci ps s \<Longrightarrow> literal_ci ps (s @ ws)"
  by (induction ps s rule: literal_ci.induct) simp_all

lemma literal_ci_length: "literal_ci ps s \<Longrightarrow> length ps \<le> length s"
  by (induction ps s rule: literal_ci.induct) simp_all

lemma boundary_after_append:
  assumes "\<forall>c\<in>set ws. \<not> word_char alnum c" "0 < n" "n \<le> length xs"
  shows "boundary_after alnum n (xs @ ws) = boundary_after alnum n xs"
proof -
  from assms(2,3) have "drop (n - 1) xs \<noteq> []" by simp
  then obtain d cont where d: "drop (n - 1) xs = d # cont"
    by (cases "drop (n - 1) xs") auto
  with assms(2,3) have "drop (n - 1) (xs @ ws) = d # (cont @ ws)"
    by simp
  with d assms(1) show ?thesis
    by (simp add: boundary_after_def boundary_append)
qed

lemma match_append:
  assumes ws: "\<forall>c\<in>set ws. \<not> word_char alnum c"
    and m: "match_connector alnum p (c # cs) \<noteq> None"
  shows "match_connector alnum p ((c # cs) @ ws) \<noteq> None"
proof -
  let ?e = "u ''e''" and ?en = "u ''ent'' @ [0xE3] @ u ''o''"
  from m have b: "boundary alnum p (c # cs)"
    by (auto simp: match_connector_def split: if_splits)
  then have b': "boundary alnum p ((c # cs) @ ws)"
    by (simp add: boundary_def)
  from m b consider
      (one) "literal_ci ?e (c # cs)" "boundary_after alnum 1 (c # cs)"
    | (five) "literal_ci ?en (c # cs)" "boundary_after alnum 5 (c # cs)"
    by (auto simp: match_connector_def split: if_splits)
  then show ?thesis
  proof cases
    case one
    from one(1) have "literal_ci ?e ((c # cs) @ ws)" by (rule literal_ci_append)
    moreover have "boundary_after alnum 1 ((c # cs) @ ws) = boundary_after alnum 1 (c # cs)"
      using ws by (rule boundary_after_append) simp_all
    with one(2) have "boundary_after alnum 1 ((c # cs) @ ws)"
      by (simp only:)
    ultimately show ?thesis using b'
      by (simp add: match_connector_def)
  next
    case five
    from five(1) have len: "5 \<le> length (c # cs)"
      using literal_ci_length [of ?en "c # cs"] by (simp add: u_def)
    from five(1) have l: "literal_ci ?en ((c # cs) @ ws)" by (rule literal_ci_append)
    have "boundary_after alnum 5 ((c # cs) @ ws) = boundary_after alnum 5 (c # cs)"
      using ws _ len by (rule boundary_after_append) simp
    with five(2) have "boundary_after alnum 5 ((c # cs) @ ws)"
      by (simp only:)
    with l b' show ?thesis
      by (simp add: match_connector_def)
  qed
qed

lemma no_match_prefix:
  assumes ws: "\<forall>c\<in>set ws. \<not> word_char alnum c"
    and "sub_connector alnum p 0 (xs @ ws) = xs @ ws"
  shows "sub_connector alnum p 0 xs = xs"
  using assms(2)
proof (induction xs arbitrary: p)
  case Nil
  show ?case by simp
next
  case (Cons c cs)
  from Cons.prems have full: "sub_connector alnum p 0 (c # (cs @ ws)) = c # (cs @ ws)"
    by simp
  have "match_connector alnum p (c # cs) = None"
  proof (rule ccontr)
    assume "match_connector alnum p (c # cs) \<noteq> None"
    with ws have "match_connector alnum p ((c # cs) @ ws) \<noteq> None"
      by (rule match_append)
    with no_match_step(1) [OF full] show False by simp
  qed
  moreover from no_match_step(2) [OF full] have "sub_connector alnum (word_char alnum c) 0 cs = cs"
    by (rule Cons.IH)
  ultimately show ?case by simp
qed

lemma no_match_strip:
  assumes ws: "\<forall>c. isspace c \<longrightarrow> \<not> alnum c"
    and "sub_connector alnum False 0 s = s"
  shows "sub_connector alnum False 0 (strip s) = strip s"
proof -
  from assms have d: "sub_connector alnum False 0 (dropWhile isspace s) = dropWhile isspace s"
    by (rule no_match_dropWhile)
  obtain sp where sp: "dropWhile isspace s = strip s @ sp" "\<forall>c\<in>set sp. isspace c"
    using strip_prefix by blast
  have "\<forall>c\<in>set sp. \<not> word_char alnum c"
  proof
    fix c
    assume "c \<in> set sp"
    with sp(2) have "isspace c" by simp
    with ws show "\<not> word_char alnum c" by (rule space_not_word)
  qed
  moreover from d have "sub_connector alnum False 0 (strip s @ sp) = strip s @ sp"
    unfolding sp(1) .
  ultimately show ?thesis by (rule no_match_prefix)
qed

lemma clean_idempotent:
  assumes ws: "\<forall>c. isspace c \<longrightarrow> \<not> alnum c"
    and nm: "sub_connector alnum False 0 (sub_ws False s) = sub_ws False s"
  shows "clean_transcription alnum (clean_transcription alnum s) = clean_transcription alnum s"
proof -
  let ?y = "sub_ws False s"
  from nm have c1: "clean_transcription alnum s = strip ?y"
    by (simp add: clean_transcription_def)
  have "collapsed False (strip ?y)"
    using collapsed_sub_ws by (rule collapsed_strip)
  then have "sub_ws False (strip ?y) = strip ?y"
    by (rule sub_ws_collapsed)
  moreover from ws nm have "sub_connector alnum False 0 (strip ?y) = strip ?y"
    by (rule no_match_strip)
  ultimately have "clean_transcription alnum (strip ?y) = strip ?y"
    by (simp add: clean_transcription_def strip_strip)
  with c1 show ?thesis by simp
qed

text \<open>
  C3 as stated fails: the normalisation is not idempotent. The text \<^verbatim>\<open>e\<close> becomes
  \<^verbatim>\<open>, e\<close>, and that becomes \<^verbatim>\<open>, , e\<close>.
\<close>

theorem clean_transcription_counterexample:
  "clean_transcription alnum_latin1 (u ''e'') = u '', e'' \<and>
   clean_transcription alnum_latin1 (clean_transcription alnum_latin1 (u ''e'')) = u '', , e'' \<and>
   clean_transcription alnum_latin1 (clean_transcription alnum_latin1 (u ''e'')) \<noteq>
   clean_transcription alnum_latin1 (u ''e'')"
proof -
  have 1: "clean_transcription alnum_latin1 (u ''e'') = u '', e''"
    by (simp add: clean_transcription_def match_connector_def boundary_after_def boundary_def
          word_char_def alnum_latin1_def strip_def isspace_def u_def)
  have 2: "clean_transcription alnum_latin1 (u '', e'') = u '', , e''"
    by (simp add: clean_transcription_def match_connector_def boundary_after_def boundary_def
          word_char_def alnum_latin1_def strip_def isspace_def u_def)
  have "u '', , e'' \<noteq> u '', e''"
    by (simp add: u_def)
  with 1 2 show ?thesis by simp
qed

text \<open>
  C3, amended. The output of the normalisation has no leading and no trailing
  whitespace. On a text whose whitespace-collapsed form the connector substitution leaves
  unchanged, that is a text without a standalone connector, applying the normalisation to
  its own output returns the same string (no whitespace code point being a word
  character, as in Unicode).
\<close>

theorem clean_transcription_normal:
  "takeWhile isspace (clean_transcription alnum s) = [] \<and>
   takeWhile isspace (rev (clean_transcription alnum s)) = [] \<and>
   ((\<forall>c. isspace c \<longrightarrow> \<not> alnum c) \<and>
    sub_connector alnum False 0 (sub_ws False s) = sub_ws False s \<longrightarrow>
      clean_transcription alnum (clean_transcription alnum s) = clean_transcription alnum s)"
  by (simp add: clean_idempotent) (simp add: clean_transcription_def takeWhile_strip)

theorem clean_transcription_normal_witness:
  "\<not> (\<exists>c. isspace c \<and> alnum_latin1 c) \<and>
   sub_connector alnum_latin1 False 0 (sub_ws False (u '' de  novo '')) = sub_ws False (u '' de  novo '') \<and>
   clean_transcription alnum_latin1 (u '' de  novo '') = u ''de novo'' \<and>
   clean_transcription alnum_latin1 (clean_transcription alnum_latin1 (u '' de  novo '')) =
     clean_transcription alnum_latin1 (u '' de  novo '')"
proof -
  have ws: "\<forall>c. isspace c \<longrightarrow> \<not> alnum_latin1 c"
    by (auto simp: isspace_def alnum_latin1_def)
  have y: "sub_ws False (u '' de  novo '') = u '' de novo ''"
    by (simp add: isspace_def u_def)
  have nm: "sub_connector alnum_latin1 False 0 (u '' de novo '') = u '' de novo ''"
    by (simp add: match_connector_def boundary_after_def boundary_def word_char_def
          alnum_latin1_def u_def)
  have val: "clean_transcription alnum_latin1 (u '' de  novo '') = u ''de novo''"
    unfolding clean_transcription_def Let_def y nm
    by (simp add: strip_def isspace_def u_def)
  from clean_transcription_normal [of alnum_latin1 "u '' de  novo ''"] ws nm y val
  show ?thesis by simp
qed

end
